theory Spec2Isabelle
  imports
    Complex_Main
    "HOL-Library.AList"
    "HOL-Library.Multiset"
    "HOL-Library.Char_ord"
    "HOL-Library.List_Lexorder"
    "HOL-Library.Product_Lexorder"
begin

section \<open>exif\_count: counting EXIF field values over a photo collection\<close>

text \<open>
  The development follows \<^verbatim>\<open>exif_count.py\<close>: the worker \<^verbatim>\<open>make_statistic\<close> that
  reads one file and bumps the shared counters, the dispatcher \<^verbatim>\<open>get_statistic_dict\<close>
  that collects the tasks, and the renderer \<^verbatim>\<open>plot_statistic_dict\<close> that sorts every
  field's counters and draws one bar chart per field.

  Python strings are \<^typ>\<open>string\<close>, Python integers are \<^typ>\<open>int\<close>, a \<^verbatim>\<open>dict\<close> is an
  association list in insertion order (read with \<^const>\<open>map_of\<close>, written with
  \<^const>\<open>AList.update\<close>, which overwrites in place and appends a new key at the end, as a
  Python dict does), and an exception is a value of type \<open>error\<close>.
\<close>

subsection \<open>The string methods the worker uses\<close>

text \<open>\<^verbatim>\<open>s.split(sep)[0]\<close> for a one-character separator: the part before its first occurrence,
  the whole string when there is none.\<close>

definition str_split0 :: "char \<Rightarrow> string \<Rightarrow> string" where
  "str_split0 sep s = takeWhile (\<lambda>c. c \<noteq> sep) s"

text \<open>\<^verbatim>\<open>s.replace(old, new, count)\<close> for one-character \<^verbatim>\<open>old\<close> and \<^verbatim>\<open>new\<close>: the first
  \<^verbatim>\<open>count\<close> occurrences, from the left, are replaced.\<close>

fun str_replace :: "char \<Rightarrow> char \<Rightarrow> nat \<Rightarrow> string \<Rightarrow> string" where
  "str_replace old new 0 s = s"
| "str_replace old new (Suc n) [] = []"
| "str_replace old new (Suc n) (c # cs) =
     (if c = old then new # str_replace old new n cs
      else c # str_replace old new (Suc n) cs)"

text \<open>\<^verbatim>\<open>s.strip(ch)\<close> for a one-character argument: the character is removed from both ends
  of the string, as long as it stands there.\<close>

definition str_strip :: "char \<Rightarrow> string \<Rightarrow> string" where
  "str_strip ch s = rev (dropWhile (\<lambda>c. c = ch) (rev (dropWhile (\<lambda>c. c = ch) s)))"

subsection \<open>The shared counters\<close>

datatype error =
    KeyError          \<comment> \<open>a dict read at a key it does not hold\<close>
  | ValueError        \<comment> \<open>a string one of the parsers refuses, or an unpacking of too few values\<close>
  | ZeroDivisionError \<comment> \<open>a fraction with denominator zero\<close>
  | TypeError         \<comment> \<open>subscripting the integer that the dispatcher returns when interrupted\<close>
  | OSError           \<comment> \<open>\<^verbatim>\<open>Image.open\<close> or \<^verbatim>\<open>_getexif\<close> failing on the file\<close>

text \<open>\<^verbatim>\<open>STATISTIC_KEYS\<close>, in the order of the source.\<close>

definition STATISTIC_KEYS :: "string list" where
  "STATISTIC_KEYS =
     [''DateTimeOriginal'', ''Model'', ''LensModel'', ''FNumber'',
      ''ExposureTime'', ''ISOSpeedRatings'', ''FocalLength'']"

text \<open>One field's counters (value to count) and the table of all fields
  (\<^verbatim>\<open>shared_dict\<close>: field name to counters).\<close>

type_synonym counts = "(string \<times> int) list"
type_synonym table = "(string \<times> counts) list"

text \<open>The body of \<^verbatim>\<open>with lock:\<close> (lines 57 to 61): one check-then-write on
  \<^verbatim>\<open>shared_dict[key]\<close>, executed while the lock is held.\<close>

definition increment :: "string \<Rightarrow> string \<Rightarrow> table \<Rightarrow> error + table" where
  "increment key val shared_dict =
     (case map_of shared_dict key of
        None \<Rightarrow> Inl KeyError
      | Some d \<Rightarrow>
          (case map_of d val of
             None \<Rightarrow> Inr (AList.update key (AList.update val 1 d) shared_dict)
           | Some c \<Rightarrow> Inr (AList.update key (AList.update val (c + 1) d) shared_dict)))"

text \<open>The table \<^verbatim>\<open>get_statistic_dict\<close> starts from: every key of \<^verbatim>\<open>STATISTIC_KEYS\<close> with
  an empty dict.\<close>

definition init_dict :: table where
  "init_dict = map (\<lambda>k. (k, [])) STATISTIC_KEYS"

subsection \<open>The worker: \<^verbatim>\<open>make_statistic\<close>\<close>

text \<open>The stored value of a field (lines 50 to 55): the date part of
  \<^verbatim>\<open>DateTimeOriginal\<close> with its first two colons turned into dashes, and for every other
  key the string with \<^verbatim>\<open>"\x00"\<close> stripped.\<close>

definition field_value :: "string \<Rightarrow> string \<Rightarrow> string" where
  "field_value key raw =
     (if key = ''DateTimeOriginal''
      then str_replace (CHR '':'') (CHR ''-'') 2 (str_split0 (CHR '' '') raw)
      else str_strip (CHR 0x00) raw)"

text \<open>What opening a file gives the worker: an exception of \<^verbatim>\<open>Image.open\<close> or
  \<^verbatim>\<open>_getexif\<close>, no EXIF block (\<^verbatim>\<open>exif is None\<close>), or \<^verbatim>\<open>exif_result\<close>, the dict from
  tag name to \<^verbatim>\<open>str(value)\<close>.\<close>

datatype photo = Unreadable | NoExif | Exif "(string \<times> string) list"

text \<open>The loop \<^verbatim>\<open>for key in STATISTIC_KEYS\<close> (lines 46 to 61) from the keys still to visit.
  It returns at the first key that \<^verbatim>\<open>exif_result\<close> lacks; what it has written to the shared
  table before stays written. The result is the exception, if any, and the table.\<close>

fun count_keys :: "string list \<Rightarrow> (string \<times> string) list \<Rightarrow> table \<Rightarrow> error option \<times> table" where
  "count_keys [] exif_result shared_dict = (None, shared_dict)"
| "count_keys (key # keys) exif_result shared_dict =
     (case map_of exif_result key of
        None \<Rightarrow> (None, shared_dict)
      | Some raw \<Rightarrow>
          (case increment key (field_value key raw) shared_dict of
             Inl e \<Rightarrow> (Some e, shared_dict)
           | Inr shared_dict' \<Rightarrow> count_keys keys exif_result shared_dict'))"

fun make_statistic :: "photo \<Rightarrow> table \<Rightarrow> error option \<times> table" where
  "make_statistic Unreadable shared_dict = (Some OSError, shared_dict)"
| "make_statistic NoExif shared_dict = (None, shared_dict)"
| "make_statistic (Exif exif_result) shared_dict =
     count_keys STATISTIC_KEYS exif_result shared_dict"

text \<open>The lock serialises the increments of all workers: a run applies them one after the
  other, in the order in which the lock was taken. An exception ends the sequence.\<close>

fun apply_increments :: "(string \<times> string) list \<Rightarrow> table \<Rightarrow> error + table" where
  "apply_increments [] t = Inr t"
| "apply_increments ((key, val) # rest) t =
     (case increment key val t of
        Inl e \<Rightarrow> Inl e
      | Inr t' \<Rightarrow> apply_increments rest t')"

text \<open>The entry of a table at a field and a value, \<open>None\<close> when either key is absent,
  and the count it stands for: 0 when there is no entry.\<close>

definition entry :: "table \<Rightarrow> string \<Rightarrow> string \<Rightarrow> int option" where
  "entry t key val = (case map_of t key of None \<Rightarrow> None | Some d \<Rightarrow> map_of d val)"

definition count_of :: "table \<Rightarrow> string \<Rightarrow> string \<Rightarrow> int" where
  "count_of t key val = (case entry t key val of None \<Rightarrow> 0 | Some c \<Rightarrow> c)"

subsection \<open>The workers side by side\<close>

text \<open>
  The pool runs one \<^verbatim>\<open>make_statistic\<close> per file, in parallel; only the body of
  \<^verbatim>\<open>with lock:\<close> is atomic. A worker is the file it reads, the number of keys of
  \<^verbatim>\<open>STATISTIC_KEYS\<close> it has counted so far and whether it has returned (or raised). One step
  of a worker is one iteration of its loop: it returns at a missing key, or it takes the
  lock and increments. A step of the pool is a step of any one worker.
\<close>

record worker =
  img :: photo
  pc :: nat
  returned :: bool

definition start :: "photo \<Rightarrow> worker" where
  "start f = \<lparr>img = f, pc = 0, returned = False\<rparr>"

definition worker_step :: "worker \<Rightarrow> table \<Rightarrow> (worker \<times> table) option" where
  "worker_step w t =
     (if returned w then None
      else
        (case img w of
           Unreadable \<Rightarrow> Some (w\<lparr>returned := True\<rparr>, t)
         | NoExif \<Rightarrow> Some (w\<lparr>returned := True\<rparr>, t)
         | Exif exif_result \<Rightarrow>
             (if length STATISTIC_KEYS \<le> pc w then Some (w\<lparr>returned := True\<rparr>, t)
              else
                (case map_of exif_result (STATISTIC_KEYS ! pc w) of
                   None \<Rightarrow> Some (w\<lparr>returned := True\<rparr>, t)
                 | Some raw \<Rightarrow>
                     (case increment (STATISTIC_KEYS ! pc w)
                             (field_value (STATISTIC_KEYS ! pc w) raw) t of
                        Inl e \<Rightarrow> Some (w\<lparr>returned := True\<rparr>, t)
                      | Inr t' \<Rightarrow> Some (w\<lparr>pc := pc w + 1\<rparr>, t'))))))"

inductive step :: "worker list \<times> table \<Rightarrow> worker list \<times> table \<Rightarrow> bool" where
  "i < length ws \<Longrightarrow> worker_step (ws ! i) t = Some (w', t') \<Longrightarrow>
   step (ws, t) (ws[i := w'], t')"

text \<open>The states a run over the given files passes through, from the initial table and
  all workers at the start of their loop.\<close>

definition reachable :: "photo list \<Rightarrow> worker list \<times> table \<Rightarrow> bool" where
  "reachable files c = rtranclp step (map start files, init_dict) c"

text \<open>A worker has counted a key when its loop has passed it; a file carries a key when
  its \<^verbatim>\<open>exif_result\<close> holds it.\<close>

definition counted :: "string \<Rightarrow> worker \<Rightarrow> bool" where
  "counted key w = (key \<in> set (take (pc w) STATISTIC_KEYS))"

definition carries :: "string \<Rightarrow> photo \<Rightarrow> bool" where
  "carries key f = (case f of Exif exif_result \<Rightarrow> map_of exif_result key \<noteq> None | _ \<Rightarrow> False)"


definition table_inv :: "photo list \<Rightarrow> worker list \<times> table \<Rightarrow> bool" where
  "table_inv files c =
     (case c of (ws, t) \<Rightarrow>
        map fst t = STATISTIC_KEYS
      \<and> map img ws = files
      \<and> (\<forall>w \<in> set ws. \<forall>key. counted key w \<longrightarrow> carries key (img w))
      \<and> (\<forall>key d. map_of t key = Some d \<longrightarrow>
            distinct (map fst d) \<and> (\<forall>(v, c) \<in> set d. 1 \<le> c)
          \<and> sum_list (map snd d) = int (length (filter (counted key) ws))))"

text \<open>What a file's worker writes when it runs to its end: the value it stores for a key,
  the keys it counts (those before the first one that the file lacks) and its increments
  in order.\<close>

definition stored :: "photo \<Rightarrow> string \<Rightarrow> string option" where
  "stored f key =
     (case f of Exif exif_result \<Rightarrow> map_option (field_value key) (map_of exif_result key)
      | _ \<Rightarrow> None)"

definition counted_keys :: "photo \<Rightarrow> string list" where
  "counted_keys f = takeWhile (\<lambda>key. carries key f) STATISTIC_KEYS"

definition increments_of :: "photo \<Rightarrow> (string \<times> string) list" where
  "increments_of f =
     List.map_filter (\<lambda>key. map_option (Pair key) (stored f key)) (counted_keys f)"

text \<open>The invariant that ties the table to the progress of the workers: a worker is never
  beyond the keys its file lets it count and is exactly there once it has returned, and
  every entry of the table is the number of workers that have counted that key with that
  value (no entry when there is none).\<close>

definition tally :: "nat \<Rightarrow> int option" where
  "tally n = (if n = 0 then None else Some (int n))"

definition pool_inv :: "worker list \<times> table \<Rightarrow> bool" where
  "pool_inv c =
     (case c of (ws, t) \<Rightarrow>
        (\<forall>w \<in> set ws. pc w \<le> length (counted_keys (img w))
           \<and> (returned w \<longrightarrow> pc w = length (counted_keys (img w))))
      \<and> (\<forall>key val. entry t key val =
            tally (length (filter (\<lambda>w. counted key w \<and> stored (img w) key = Some val) ws))))"

subsection \<open>The dispatcher: \<^verbatim>\<open>get_statistic_dict\<close>\<close>

text \<open>
  What \<^verbatim>\<open>task.get(10)\<close> meets: the task's result within the ten seconds, a
  \<^verbatim>\<open>multiprocessing.TimeoutError\<close>, or a \<^verbatim>\<open>KeyboardInterrupt\<close>. The dispatcher returns
  the table, or the integer 1 after an interrupt.
\<close>

datatype wait = InTime | Lapsed | Interrupted

datatype outcome = Dict table | One

text \<open>The pool with the files taken one after the other. It yields every task's result
  (the worker's exception, if it raised) and the shared table once all workers are
  done: \<^verbatim>\<open>pool.join()\<close> also waits for the workers whose task lapsed. The order is
  immaterial for the counts: every interleaving of the workers' steps that lets all of
  them return ends with the same fields and entries (\<open>complete_run_counts\<close> below).\<close>

fun run_pool :: "photo list \<Rightarrow> table \<Rightarrow> error option list \<times> table" where
  "run_pool [] shared_dict = ([], shared_dict)"
| "run_pool (f # files) shared_dict =
     (case make_statistic f shared_dict of
        (r, shared_dict') \<Rightarrow>
          (case run_pool files shared_dict' of
             (rs, shared_dict'') \<Rightarrow> (r # rs, shared_dict'')))"

text \<open>The loop \<^verbatim>\<open>for task in tasks\<close> (lines 96 to 105). \<^verbatim>\<open>task.get\<close> re-raises the exception
  of the worker, and the \<^verbatim>\<open>try\<close> has handlers for the timeout and the interrupt only.
  \<open>Inr True\<close>: the loop ran through; \<open>Inr False\<close>: \<^verbatim>\<open>return 1\<close>.\<close>

fun get_tasks :: "(error option \<times> wait) list \<Rightarrow> error + bool" where
  "get_tasks [] = Inr True"
| "get_tasks ((r, w) # tasks) =
     (case w of
        Lapsed \<Rightarrow> get_tasks tasks
      | Interrupted \<Rightarrow> Inr False
      | InTime \<Rightarrow> (case r of Some e \<Rightarrow> Inl e | None \<Rightarrow> get_tasks tasks))"

text \<open>\<^verbatim>\<open>get_statistic_dict\<close> from the list of files that the directory listing and the two
  filters leave, each with what the wait for its task meets.\<close>

definition get_statistic_dict :: "(photo \<times> wait) list \<Rightarrow> error + outcome" where
  "get_statistic_dict files =
     (case run_pool (map fst files) init_dict of
        (rs, shared_dict) \<Rightarrow>
          (case get_tasks (zip rs (map snd files)) of
             Inl e \<Rightarrow> Inl e
           | Inr False \<Rightarrow> Inr One
           | Inr True \<Rightarrow> Inr (Dict shared_dict)))"

subsection \<open>Fractions: \<^verbatim>\<open>limit_denominator\<close> and \<^verbatim>\<open>str\<close>\<close>

text \<open>
  A \<^verbatim>\<open>Fraction\<close> is a \<^typ>\<open>rat\<close>; \<^const>\<open>quotient_of\<close> gives its numerator and its
  positive denominator in lowest terms, which is what a \<^verbatim>\<open>Fraction\<close> stores.
  \<^verbatim>\<open>Fraction(n, d)\<close> raises on a zero denominator.
\<close>

definition mk_Fraction :: "int \<Rightarrow> int \<Rightarrow> error + rat" where
  "mk_Fraction n d = (if d = 0 then Inl ZeroDivisionError else Inr (Fract n d))"

text \<open>The loop of \<^verbatim>\<open>Fraction.limit_denominator\<close> (CPython, \<^verbatim>\<open>fractions.py\<close>): the
  convergents \<open>p0/q0\<close>, \<open>p1/q1\<close> of the continued fraction of \<open>n/d\<close>, until the next
  denominator would exceed the bound. It yields the state at the \<^verbatim>\<open>break\<close>.\<close>

function limit_loop ::
  "int \<Rightarrow> int \<Rightarrow> int \<Rightarrow> int \<Rightarrow> int \<Rightarrow> int \<Rightarrow> int
    \<Rightarrow> error + (int \<times> int \<times> int \<times> int \<times> int \<times> int)" where
  "limit_loop max_denominator p0 q0 p1 q1 n d =
     (if d = 0 then Inl ZeroDivisionError
      else if q0 + (n div d) * q1 > max_denominator then Inr (p0, q0, p1, q1, n, d)
      else limit_loop max_denominator p1 q1 (p0 + (n div d) * p1) (q0 + (n div d) * q1)
             d (n - (n div d) * d))"
  by pat_completeness auto
termination
  by (relation "measure (\<lambda>(m, p0, q0, p1, q1, n, d). nat \<bar>d\<bar>)")
    (auto simp add: minus_div_mult_eq_mod intro: abs_mod_less)

declare limit_loop.simps [simp del]

text \<open>\<^verbatim>\<open>limit_denominator(max_denominator)\<close>: the fraction itself when its denominator is
  within the bound, else the closer of the last convergent and the best semiconvergent.\<close>

definition limit_denominator_to :: "int \<Rightarrow> rat \<Rightarrow> error + rat" where
  "limit_denominator_to max_denominator r =
     (if max_denominator < 1 then Inl ValueError
      else if snd (quotient_of r) \<le> max_denominator then Inr r
      else
        (case limit_loop max_denominator 0 1 1 0 (fst (quotient_of r)) (snd (quotient_of r)) of
           Inl e \<Rightarrow> Inl e
         | Inr (p0, q0, p1, q1, n, d) \<Rightarrow>
             (if q1 = 0 then Inl ZeroDivisionError
              else
                (case mk_Fraction (p0 + ((max_denominator - q0) div q1) * p1)
                        (q0 + ((max_denominator - q0) div q1) * q1) of
                   Inl e \<Rightarrow> Inl e
                 | Inr bound1 \<Rightarrow>
                     (case mk_Fraction p1 q1 of
                        Inl e \<Rightarrow> Inl e
                      | Inr bound2 \<Rightarrow>
                          (if \<bar>bound2 - r\<bar> \<le> \<bar>bound1 - r\<bar> then Inr bound2
                           else Inr bound1))))))"

text \<open>The call of the source has no argument: the default bound is 1000000.\<close>

definition limit_denominator :: "rat \<Rightarrow> error + rat" where
  "limit_denominator r = limit_denominator_to 1000000 r"

text \<open>\<^verbatim>\<open>str\<close> of a non-negative integer, of an integer and of a \<^verbatim>\<open>Fraction\<close> (the numerator alone
  when the denominator is 1, else numerator, slash, denominator).\<close>

function str_nat :: "int \<Rightarrow> string" where
  "str_nat n =
     (if n < 10 then [char_of (48 + n)]
      else str_nat (n div 10) @ [char_of (48 + n mod 10)])"
  by pat_completeness auto
termination
  by (relation "measure nat") auto

declare str_nat.simps [simp del]

definition str_int :: "int \<Rightarrow> string" where
  "str_int i = (if i < 0 then CHR ''-'' # str_nat (- i) else str_nat i)"

definition str_Fraction :: "rat \<Rightarrow> string" where
  "str_Fraction r =
     (if snd (quotient_of r) = 1 then str_int (fst (quotient_of r))
      else str_int (fst (quotient_of r)) @ ''/'' @ str_int (snd (quotient_of r)))"

subsection \<open>The renderer: \<^verbatim>\<open>plot_statistic_dict\<close>\<close>

text \<open>
  The sort keys are computed by \<^verbatim>\<open>Fraction\<close>, \<^verbatim>\<open>float\<close>, \<^verbatim>\<open>int\<close> and
  \<^verbatim>\<open>datetime.date.fromisoformat\<close>. They belong to the Python library, so the renderer takes
  them as a record: each maps a string to its value or to the exception it raises.
  Fractions are rationals, integers are integers, a date is (year, month, day) in
  lexicographic, that is chronological, order; the values of \<^verbatim>\<open>float\<close> are any linearly
  ordered type (the floats without NaN, on which \<^verbatim>\<open><\<close> is not an order).
\<close>

type_synonym date = "int \<times> int \<times> int"

record 'f lib =
  py_Fraction :: "string \<Rightarrow> error + rat"
  py_float :: "string \<Rightarrow> error + 'f"
  py_int :: "string \<Rightarrow> error + int"
  py_fromisoformat :: "string \<Rightarrow> error + date"

text \<open>\<^verbatim>\<open>sorted(items, key=f)\<close>: the key function is called on every item, from the left,
  and the first exception ends the call; the items are then sorted by their keys, items
  with equal keys staying in their order (\<^const>\<open>sort_key\<close> is stable).\<close>

fun keyed :: "(string \<Rightarrow> error + 'k) \<Rightarrow> counts \<Rightarrow> error + ('k \<times> (string \<times> int)) list" where
  "keyed f [] = Inr []"
| "keyed f (item # items) =
     (case f (fst item) of
        Inl e \<Rightarrow> Inl e
      | Inr k \<Rightarrow>
          (case keyed f items of
             Inl e \<Rightarrow> Inl e
           | Inr ks \<Rightarrow> Inr ((k, item) # ks)))"

definition sorted_by :: "(string \<Rightarrow> error + 'k::linorder) \<Rightarrow> counts \<Rightarrow> error + counts" where
  "sorted_by f items =
     (case keyed f items of
        Inl e \<Rightarrow> Inl e
      | Inr ks \<Rightarrow> Inr (map snd (sort_key fst ks)))"

text \<open>The choice of \<^verbatim>\<open>sort_lambda\<close> (lines 120 to 128) and the call of \<^verbatim>\<open>sorted\<close>
  (line 129).\<close>

definition sorted_items :: "('f::linorder) lib \<Rightarrow> string \<Rightarrow> counts \<Rightarrow> error + counts" where
  "sorted_items L k d =
     (if k = ''ExposureTime'' then sorted_by (py_Fraction L) d
      else if k = ''FNumber'' \<or> k = ''FocalLength'' then sorted_by (py_float L) d
      else if k = ''ISOSpeedRatings'' then sorted_by (py_int L) d
      else if k = ''DateTimeOriginal'' then sorted_by (py_fromisoformat L) d
      else Inr (sort_key fst d))"

text \<open>The labels of the \<^verbatim>\<open>ExposureTime\<close> chart (line 135).\<close>

fun fraction_labels :: "'f lib \<Rightarrow> string list \<Rightarrow> error + string list" where
  "fraction_labels L [] = Inr []"
| "fraction_labels L (v # vs) =
     (case py_Fraction L v of
        Inl e \<Rightarrow> Inl e
      | Inr r \<Rightarrow>
          (case limit_denominator r of
             Inl e \<Rightarrow> Inl e
           | Inr r' \<Rightarrow>
               (case fraction_labels L vs of
                  Inl e \<Rightarrow> Inl e
                | Inr ls \<Rightarrow> Inr (str_Fraction r' # ls))))"

text \<open>One chart block: the header \<^verbatim>\<open>[k]\<close> and the bars, one per label.\<close>

record chart =
  title :: string
  labels :: "string list"
  bars :: "int list"

text \<open>The body of the loop of \<^verbatim>\<open>plot_statistic_dict\<close> for one field (lines 119 to 138).
  Unpacking \<^verbatim>\<open>zip(*sorted(...))\<close> into \<^verbatim>\<open>(keys, values)\<close> raises \<^verbatim>\<open>ValueError\<close> when the
  field has no entry.\<close>

definition plot_field :: "('f::linorder) lib \<Rightarrow> string \<Rightarrow> counts \<Rightarrow> error + chart" where
  "plot_field L k d =
     (case sorted_items L k d of
        Inl e \<Rightarrow> Inl e
      | Inr items \<Rightarrow>
          (if items = [] then Inl ValueError
           else if k = ''ExposureTime'' then
             (case fraction_labels L (map fst items) of
                Inl e \<Rightarrow> Inl e
              | Inr ls \<Rightarrow> Inr \<lparr>title = k, labels = ls, bars = map snd items\<rparr>)
           else Inr \<lparr>title = k, labels = map fst items, bars = map snd items\<rparr>))"

text \<open>\<^verbatim>\<open>plot_statistic_dict\<close>: the charts drawn, in order, and the exception that ended the
  loop, if any.\<close>

fun plot_statistic_dict :: "('f::linorder) lib \<Rightarrow> table \<Rightarrow> chart list \<times> error option" where
  "plot_statistic_dict L [] = ([], None)"
| "plot_statistic_dict L ((k, d) # rest) =
     (case plot_field L k d of
        Inl e \<Rightarrow> ([], Some e)
      | Inr c \<Rightarrow>
          (case plot_statistic_dict L rest of
             (cs, r) \<Rightarrow> (c # cs, r)))"

text \<open>The value whose parse the sort key of a field performs, as an exception or none.\<close>

definition parse_error :: "'f lib \<Rightarrow> string \<Rightarrow> string \<Rightarrow> error option" where
  "parse_error L k v =
     (if k = ''ExposureTime'' then (case py_Fraction L v of Inl e \<Rightarrow> Some e | Inr _ \<Rightarrow> None)
      else if k = ''FNumber'' \<or> k = ''FocalLength'' then
        (case py_float L v of Inl e \<Rightarrow> Some e | Inr _ \<Rightarrow> None)
      else if k = ''ISOSpeedRatings'' then (case py_int L v of Inl e \<Rightarrow> Some e | Inr _ \<Rightarrow> None)
      else if k = ''DateTimeOriginal'' then
        (case py_fromisoformat L v of Inl e \<Rightarrow> Some e | Inr _ \<Rightarrow> None)
      else None)"

subsection \<open>The entry point: \<^verbatim>\<open>cli\<close>\<close>

text \<open>\<^verbatim>\<open>cli\<close> after the arguments are read: the charts drawn and the exception that ended
  the run, if any. Subscripting the integer of an interrupted run raises
  \<^verbatim>\<open>TypeError\<close>.\<close>

definition cli :: "('f::linorder) lib \<Rightarrow> (photo \<times> wait) list \<Rightarrow> chart list \<times> error option" where
  "cli L files =
     (case get_statistic_dict files of
        Inl e \<Rightarrow> ([], Some e)
      | Inr One \<Rightarrow> ([], Some TypeError)
      | Inr (Dict statistic_result) \<Rightarrow>
          (case map_of statistic_result ''DateTimeOriginal'' of
             None \<Rightarrow> ([], Some KeyError)
           | Some d \<Rightarrow>
               (if length d > 0 then plot_statistic_dict L statistic_result
                else ([], None))))"

subsection \<open>Reference parsers\<close>

text \<open>
  Plain instances of the four library parsers, for running the renderer on concrete
  tables: unsigned or signed decimal digits for \<^verbatim>\<open>int\<close>, digits with an optional
  fractional part for \<^verbatim>\<open>float\<close> (as the exact rational), the same or
  \<^verbatim>\<open>numerator/denominator\<close> for \<^verbatim>\<open>Fraction\<close>, and \<^verbatim>\<open>YYYY-MM-DD\<close> with a valid month and
  day for \<^verbatim>\<open>date.fromisoformat\<close>. Every other string is refused with \<^verbatim>\<open>ValueError\<close>.
\<close>

definition digit_of :: "char \<Rightarrow> int option" where
  "digit_of c = (if CHR ''0'' \<le> c \<and> c \<le> CHR ''9'' then Some (of_char c - 48) else None)"

fun digits_value :: "int \<Rightarrow> string \<Rightarrow> int option" where
  "digits_value acc [] = Some acc"
| "digits_value acc (c # cs) =
     (case digit_of c of None \<Rightarrow> None | Some v \<Rightarrow> digits_value (10 * acc + v) cs)"

definition nat_literal :: "string \<Rightarrow> int option" where
  "nat_literal s = (if s = [] then None else digits_value 0 s)"

definition negative :: "string \<Rightarrow> bool" where
  "negative s = (s \<noteq> [] \<and> hd s = CHR ''-'')"

definition unsigned :: "string \<Rightarrow> string" where
  "unsigned s = (if s \<noteq> [] \<and> (hd s = CHR ''-'' \<or> hd s = CHR ''+'') then tl s else s)"

definition int_literal :: "string \<Rightarrow> error + int" where
  "int_literal s =
     (case nat_literal (unsigned s) of
        None \<Rightarrow> Inl ValueError
      | Some n \<Rightarrow> Inr (if negative s then - n else n))"

definition decimal_literal :: "string \<Rightarrow> rat option" where
  "decimal_literal s =
     (let ip = takeWhile (\<lambda>c. c \<noteq> CHR ''.'') s;
          fp = drop 1 (dropWhile (\<lambda>c. c \<noteq> CHR ''.'') s)
      in if ip = [] \<and> fp = [] then None
         else
           (case digits_value 0 ip of
              None \<Rightarrow> None
            | Some i \<Rightarrow>
                (case digits_value 0 fp of
                   None \<Rightarrow> None
                 | Some f \<Rightarrow> Some (of_int i + of_int f / 10 ^ length fp))))"

definition float_literal :: "string \<Rightarrow> error + rat" where
  "float_literal s =
     (case decimal_literal (unsigned s) of
        None \<Rightarrow> Inl ValueError
      | Some r \<Rightarrow> Inr (if negative s then - r else r))"

definition Fraction_literal :: "string \<Rightarrow> error + rat" where
  "Fraction_literal s =
     (if CHR ''/'' \<in> set s then
        (case nat_literal (takeWhile (\<lambda>c. c \<noteq> CHR ''/'') (unsigned s)) of
           None \<Rightarrow> Inl ValueError
         | Some n \<Rightarrow>
             (case nat_literal (drop 1 (dropWhile (\<lambda>c. c \<noteq> CHR ''/'') (unsigned s))) of
                None \<Rightarrow> Inl ValueError
              | Some d \<Rightarrow>
                  (if d = 0 then Inl ZeroDivisionError
                   else Inr (if negative s then - Fract n d else Fract n d))))
      else float_literal s)"

definition days_in_month :: "int \<Rightarrow> int \<Rightarrow> int" where
  "days_in_month y m =
     (if m = 2 then (if y mod 4 = 0 \<and> (y mod 100 \<noteq> 0 \<or> y mod 400 = 0) then 29 else 28)
      else if m = 4 \<or> m = 6 \<or> m = 9 \<or> m = 11 then 30
      else 31)"

definition date_literal :: "string \<Rightarrow> error + date" where
  "date_literal s =
     (if length s = 10 \<and> s ! 4 = CHR ''-'' \<and> s ! 7 = CHR ''-'' then
        (case nat_literal (take 4 s) of
           None \<Rightarrow> Inl ValueError
         | Some y \<Rightarrow>
             (case nat_literal (take 2 (drop 5 s)) of
                None \<Rightarrow> Inl ValueError
              | Some m \<Rightarrow>
                  (case nat_literal (drop 8 s) of
                     None \<Rightarrow> Inl ValueError
                   | Some d \<Rightarrow>
                       (if 1 \<le> y \<and> 1 \<le> m \<and> m \<le> 12 \<and> 1 \<le> d \<and> d \<le> days_in_month y m
                        then Inr (y, m, d) else Inl ValueError))))
      else Inl ValueError)"

definition ref_lib :: "rat lib" where
  "ref_lib =
     \<lparr>py_Fraction = Fraction_literal, py_float = float_literal,
      py_int = int_literal, py_fromisoformat = date_literal\<rparr>"

section \<open>Properties\<close>

subsection \<open>String methods\<close>

lemma str_split0_append: "sep \<notin> set p \<Longrightarrow> str_split0 sep (p @ sep # rest) = p"
  by (induction p) (auto simp add: str_split0_def)

lemma str_split0_none: "sep \<notin> set s \<Longrightarrow> str_split0 sep s = s"
  by (auto simp add: str_split0_def)

lemma str_replace_none: "old \<notin> set s \<Longrightarrow> str_replace old new n s = s"
  by (induction old new n s rule: str_replace.induct) auto

lemma str_replace_first:
  "old \<notin> set a \<Longrightarrow>
   str_replace old new (Suc n) (a @ old # b) = a @ new # str_replace old new n b"
  by (induction a) auto

lemma takeWhile_eq_replicate:
  "takeWhile (\<lambda>c. c = ch) s = replicate (length (takeWhile (\<lambda>c. c = ch) s)) ch"
  by (induction s) auto

lemma rev_drop_take: "rev (dropWhile P (rev xs)) @ rev (takeWhile P (rev xs)) = xs"
proof -
  have "rev (takeWhile P (rev xs) @ dropWhile P (rev xs)) = xs" by simp
  then show ?thesis unfolding rev_append .
qed

lemma str_strip_decomp: "\<exists>m n. s = replicate m ch @ str_strip ch s @ replicate n ch"
proof -
  let ?P = "\<lambda>c. c = ch"
  let ?a = "dropWhile ?P s"
  have 1: "s = takeWhile ?P s @ ?a" by simp
  have 3: "?a = str_strip ch s @ rev (takeWhile ?P (rev ?a))"
    unfolding str_strip_def by (rule rev_drop_take[symmetric])
  have 4: "rev (takeWhile ?P (rev ?a)) = replicate (length (takeWhile ?P (rev ?a))) ch"
    using takeWhile_eq_replicate[of ch "rev ?a"] by (metis rev_replicate)
  have "s = replicate (length (takeWhile ?P s)) ch @ str_strip ch s
              @ replicate (length (takeWhile ?P (rev ?a))) ch"
    using 1 3 4 takeWhile_eq_replicate[of ch s] by metis
  then show ?thesis by blast
qed

lemma last_rev_dropWhile:
  "dropWhile P (rev xs) \<noteq> [] \<Longrightarrow> \<not> P (last (rev (dropWhile P (rev xs))))"
  using hd_dropWhile[of P "rev xs"] by (simp add: last_rev)

lemma hd_rev_dropWhile_rev:
  "dropWhile P (rev xs) \<noteq> [] \<Longrightarrow> hd (rev (dropWhile P (rev xs))) = hd xs"
  by (metis hd_append2 rev_drop_take rev_is_Nil_conv)

lemma str_strip_ends:
  "str_strip ch s = [] \<or> (hd (str_strip ch s) \<noteq> ch \<and> last (str_strip ch s) \<noteq> ch)"
proof (cases "str_strip ch s = []")
  case False
  let ?P = "\<lambda>c. c = ch"
  let ?a = "dropWhile ?P s"
  from False have b: "dropWhile ?P (rev ?a) \<noteq> []" by (simp add: str_strip_def)
  then have a: "?a \<noteq> []" by (metis dropWhile.simps(1) rev.simps(1))
  then have ha: "hd ?a \<noteq> ch" using hd_dropWhile[of ?P s] by blast
  have "hd (str_strip ch s) = hd ?a"
    unfolding str_strip_def using b by (rule hd_rev_dropWhile_rev)
  moreover have "last (str_strip ch s) \<noteq> ch"
    unfolding str_strip_def using b by (rule last_rev_dropWhile)
  ultimately show ?thesis using ha by simp
qed simp

subsection \<open>The increment under the lock\<close>

lemma increment_Some:
  "map_of t key = Some d \<Longrightarrow>
   increment key v t =
     Inr (AList.update key (AList.update v (case map_of d v of None \<Rightarrow> 1 | Some c \<Rightarrow> c + 1) d) t)"
  by (simp add: increment_def split: option.splits)

lemma increment_None: "map_of t key = None \<Longrightarrow> increment key v t = Inl KeyError"
  by (simp add: increment_def)

lemma increment_InrD: "increment key v t = Inr t' \<Longrightarrow> \<exists>d. map_of t key = Some d"
  by (cases "map_of t key") (simp_all add: increment_None)

lemma increment_keys:
  assumes "increment key v t = Inr t'" shows "map fst t' = map fst t"
proof -
  from assms obtain d where d: "map_of t key = Some d" by (blast dest: increment_InrD)
  then have k: "key \<in> fst ` set t" by (metis map_of_eq_None_iff option.distinct(1))
  from assms d have "t' = AList.update key
      (AList.update v (case map_of d v of None \<Rightarrow> 1 | Some c \<Rightarrow> c + 1) d) t"
    by (simp add: increment_Some)
  then show ?thesis using k by (simp add: AList.update_keys)
qed

lemma increment_entry:
  assumes "increment key v t = Inr t'"
  shows "entry t' k x =
          (if k = key \<and> x = v then Some (case entry t key v of None \<Rightarrow> 1 | Some c \<Rightarrow> c + 1)
           else entry t k x)"
proof -
  from assms obtain d where d: "map_of t key = Some d" by (blast dest: increment_InrD)
  with assms have t': "t' = AList.update key (AList.update v (case map_of d v of None \<Rightarrow> 1 | Some c \<Rightarrow> c + 1) d) t"
    by (simp add: increment_Some)
  show ?thesis
  proof (cases "k = key")
    case True
    then show ?thesis using d by (simp add: t' entry_def AList.update_conv')
  next
    case False
    then show ?thesis by (simp add: t' entry_def AList.update_conv')
  qed
qed

lemma increment_count_of:
  "increment key v t = Inr t' \<Longrightarrow>
   count_of t' k x = count_of t k x + (if k = key \<and> x = v then 1 else 0)"
  by (simp add: count_of_def increment_entry split: option.splits)

lemma apply_increments_ok:
  "fst ` set xs \<subseteq> fst ` set t \<Longrightarrow> \<exists>t'. apply_increments xs t = Inr t'"
proof (induction xs arbitrary: t)
  case (Cons a xs)
  obtain k v where a: "a = (k, v)" by (cases a)
  with Cons.prems have "map_of t k \<noteq> None" by (simp add: map_of_eq_None_iff)
  then obtain d where "map_of t k = Some d" by blast
  then obtain t1 where t1: "increment k v t = Inr t1" by (simp add: increment_Some)
  then have "fst ` set t1 = fst ` set t" using increment_keys[OF t1] by (metis set_map)
  with Cons.prems have "fst ` set xs \<subseteq> fst ` set t1" by simp
  from Cons.IH[OF this] show ?case by (simp add: a t1)
qed simp

lemma apply_increments_entry:
  "apply_increments xs t = Inr t' \<Longrightarrow>
   entry t' k x =
     (if count_list xs (k, x) = 0 then entry t k x
      else Some (count_of t k x + int (count_list xs (k, x))))"
proof (induction xs arbitrary: t)
  case (Cons a xs)
  obtain key v where a: "a = (key, v)" by (cases a)
  from Cons.prems obtain t1 where t1: "increment key v t = Inr t1"
    and r: "apply_increments xs t1 = Inr t'"
    by (auto simp: a split: sum.splits)
  show ?case using Cons.IH[OF r]
    by (auto simp add: a increment_entry[OF t1] increment_count_of[OF t1] count_of_def split: option.splits)
qed simp

lemma apply_increments_keys:
  "apply_increments xs t = Inr t' \<Longrightarrow> map fst t' = map fst t"
proof (induction xs arbitrary: t)
  case (Cons a xs)
  then show ?case by (cases a) (auto split: sum.splits dest: increment_keys)
qed simp

lemma init_dict_keys: "map fst init_dict = STATISTIC_KEYS"
  by (simp add: init_dict_def comp_def)

lemma map_of_const_map:
  "map_of (map (\<lambda>k. (k, c)) ks) k = (if k \<in> set ks then Some c else None)"
  by (induction ks) auto

lemma map_of_init_dict:
  "map_of init_dict k = (if k \<in> set STATISTIC_KEYS then Some [] else None)"
  unfolding init_dict_def by (rule map_of_const_map)

lemma init_dict_entry: "entry init_dict k v = None"
  by (simp add: entry_def map_of_init_dict)

lemma increment_effect:
  assumes d: "map_of t key = Some d"
  shows "\<exists>t' d'. increment key val t = Inr t' \<and> map_of t' key = Some d'
         \<and> (map_of d val = None \<longrightarrow> map_of d' val = Some 1)
         \<and> (\<forall>c. map_of d val = Some c \<longrightarrow> map_of d' val = Some (c + 1))
         \<and> (\<forall>v'. v' \<noteq> val \<longrightarrow> map_of d' v' = map_of d v')
         \<and> (\<forall>k'. k' \<noteq> key \<longrightarrow> map_of t' k' = map_of t k')"
proof -
  let ?d' = "AList.update val (case map_of d val of None \<Rightarrow> 1 | Some c \<Rightarrow> c + 1) d"
  let ?t' = "AList.update key ?d' t"
  have 1: "increment key val t = Inr ?t'"
    using d by (rule increment_Some)
  have 2: "map_of ?t' key = Some ?d'"
    by (simp add: AList.update_conv')
  have 3: "map_of d val = None \<longrightarrow> map_of ?d' val = Some 1"
    by (simp add: AList.update_conv')
  have 4: "\<forall>c. map_of d val = Some c \<longrightarrow> map_of ?d' val = Some (c + 1)"
    by (simp add: AList.update_conv')
  have 5: "\<forall>v'. v' \<noteq> val \<longrightarrow> map_of ?d' v' = map_of d v'"
    by (simp add: AList.update_conv')
  have 6: "\<forall>k'. k' \<noteq> key \<longrightarrow> map_of ?t' k' = map_of t k'"
    by (simp add: AList.update_conv')
  show ?thesis
    apply (rule exI[of _ ?t'])
    apply (rule exI[of _ ?d'])
    using 1 2 3 4 5 6 apply (intro conjI)
         apply assumption+
    done
qed


lemma apply_increments_init:
  assumes sub: "fst ` set zs \<subseteq> set STATISTIC_KEYS"
  shows "\<exists>t'. apply_increments zs init_dict = Inr t'
         \<and> (\<forall>k v. count_of t' k v = int (count_list zs (k, v)))
         \<and> (\<forall>k v. entry t' k v =
                (if (k, v) \<in> set zs then Some (int (count_list zs (k, v))) else None))"
proof -
  have "fst ` set init_dict = set STATISTIC_KEYS"
    using init_dict_keys by (metis set_map)
  with sub obtain t' where t': "apply_increments zs init_dict = Inr t'"
    using apply_increments_ok[of zs init_dict] by auto
  have e: "entry t' k v =
              (if (k, v) \<in> set zs then Some (int (count_list zs (k, v))) else None)" for k v
    using apply_increments_entry[OF t', of k v]
    by (simp add: init_dict_entry count_of_def count_list_0_iff)
  have c: "count_of t' k v = int (count_list zs (k, v))" for k v
    by (simp add: count_of_def e count_list_0_iff)
  show ?thesis
    apply (rule exI[of _ t'])
    using t' e c apply simp
    done
qed

lemma apply_increments_perm:
  assumes sub: "fst ` set xs \<subseteq> set STATISTIC_KEYS" and perm: "mset ys = mset xs"
  shows "\<exists>t1 t2. apply_increments xs init_dict = Inr t1
         \<and> apply_increments ys init_dict = Inr t2
         \<and> map fst t1 = map fst t2
         \<and> (\<forall>k v. entry t1 k v = entry t2 k v)"
proof -
  from perm have set_eq: "set ys = set xs" by (rule mset_eq_setD)
  have cnt: "count_list ys z = count_list xs z" for z
    using perm by (metis count_mset)
  from apply_increments_init[OF sub] obtain t1 where t1: "apply_increments xs init_dict = Inr t1"
    and e1: "\<And>k v. entry t1 k v =
              (if (k, v) \<in> set xs then Some (int (count_list xs (k, v))) else None)"
    by blast
  from sub set_eq have "fst ` set ys \<subseteq> set STATISTIC_KEYS" by simp
  from apply_increments_init[OF this] obtain t2 where t2: "apply_increments ys init_dict = Inr t2"
    and e2: "\<And>k v. entry t2 k v =
              (if (k, v) \<in> set ys then Some (int (count_list ys (k, v))) else None)"
    by blast
  have k: "map fst t1 = map fst t2"
    using apply_increments_keys[OF t1] apply_increments_keys[OF t2] by simp
  have e: "\<forall>k v. entry t1 k v = entry t2 k v"
    by (simp add: e1 e2 set_eq cnt)
  show ?thesis
    apply (rule exI[of _ t1])
    apply (rule exI[of _ t2])
    using t1 t2 k e apply simp
    done
qed

subsection \<open>Stored values\<close>

text \<open>
  C5. The stored \<^verbatim>\<open>DateTimeOriginal\<close> value is the part of the tag before its first space,
  with the first two colons of that part replaced by dashes and nothing else changed:
  what follows a space is dropped, a part without colon is kept as it is, a single colon
  becomes a dash, and of three or more colons only the first two do. The tag
  \<^verbatim>\<open>2023:05:01 12:30:00\<close> is stored as \<^verbatim>\<open>2023-05-01\<close>.
\<close>

theorem capture_date_normalization:
  "field_value ''DateTimeOriginal'' ''2023:05:01 12:30:00'' = ''2023-05-01''
   \<and> (CHR '' '' \<notin> set p \<longrightarrow>
        field_value ''DateTimeOriginal'' (p @ CHR '' '' # rest)
          = field_value ''DateTimeOriginal'' p)
   \<and> (CHR '' '' \<notin> set p \<and> CHR '':'' \<notin> set p \<longrightarrow>
        field_value ''DateTimeOriginal'' p = p)
   \<and> (CHR '' '' \<notin> set (a @ b) \<and> CHR '':'' \<notin> set a \<and> CHR '':'' \<notin> set b \<longrightarrow>
        field_value ''DateTimeOriginal'' (a @ CHR '':'' # b) = a @ CHR ''-'' # b)
   \<and> (CHR '' '' \<notin> set (a @ b @ c) \<and> CHR '':'' \<notin> set a \<and> CHR '':'' \<notin> set b \<longrightarrow>
        field_value ''DateTimeOriginal'' (a @ CHR '':'' # b @ CHR '':'' # c)
          = a @ CHR ''-'' # b @ CHR ''-'' # c)"
proof -
  let ?sp = "CHR '' ''" and ?co = "CHR '':''" and ?da = "CHR ''-''"
  have two: "2 = Suc (Suc 0)" by simp
  have 1: "field_value ''DateTimeOriginal'' ''2023:05:01 12:30:00'' = ''2023-05-01''"
    by (simp add: field_value_def str_split0_def two)
  have 2: "field_value ''DateTimeOriginal'' (p @ ?sp # rest)
             = field_value ''DateTimeOriginal'' p" if "?sp \<notin> set p"
    using that by (simp add: field_value_def str_split0_append str_split0_none)
  have 3: "field_value ''DateTimeOriginal'' p = p" if "?sp \<notin> set p \<and> ?co \<notin> set p"
    using that by (simp add: field_value_def str_split0_none str_replace_none)
  have 4: "field_value ''DateTimeOriginal'' (a @ ?co # b) = a @ ?da # b"
    if "?sp \<notin> set (a @ b) \<and> ?co \<notin> set a \<and> ?co \<notin> set b"
  proof -
    from that have "str_split0 ?sp (a @ ?co # b) = a @ ?co # b"
      by (intro str_split0_none) simp
    then show ?thesis
      using that by (simp add: field_value_def two str_replace_first str_replace_none)
  qed
  have 5: "field_value ''DateTimeOriginal'' (a @ ?co # b @ ?co # c) = a @ ?da # b @ ?da # c"
    if "?sp \<notin> set (a @ b @ c) \<and> ?co \<notin> set a \<and> ?co \<notin> set b"
  proof -
    from that have "str_split0 ?sp (a @ ?co # b @ ?co # c) = a @ ?co # b @ ?co # c"
      by (intro str_split0_none) simp
    then show ?thesis
      using that by (simp add: field_value_def two str_replace_first)
  qed
  from 1 2 3 4 5 show ?thesis by blast
qed

theorem capture_date_normalization_witness:
  "CHR '' '' \<notin> set ''2023:05:01''
   \<and> field_value ''DateTimeOriginal'' (''2023:05:01'' @ CHR '' '' # ''12:30:00'')
       = field_value ''DateTimeOriginal'' ''2023:05:01''
   \<and> CHR '' '' \<notin> set (''2023'' @ ''05'' @ ''01:x'')
   \<and> CHR '':'' \<notin> set ''2023'' \<and> CHR '':'' \<notin> set ''05''
   \<and> field_value ''DateTimeOriginal'' (''2023'' @ CHR '':'' # ''05'' @ CHR '':'' # ''01:x'')
       = ''2023'' @ CHR ''-'' # ''05'' @ CHR ''-'' # ''01:x''"
  using capture_date_normalization [of "''2023:05:01''" "''12:30:00''" "''2023''" "''05''" "''01:x''"]
  by (simp add: field_value_def str_split0_def numeral_2_eq_2)

text \<open>
  C9, as the code has it. For a key other than \<^verbatim>\<open>DateTimeOriginal\<close> the stored value is the
  tag string without its leading and trailing null characters: the tag is the stored
  value between two runs of nulls, and the stored value, when not empty, neither starts
  nor ends with a null. Nulls inside the string stay.
\<close>

theorem stored_value_strips_outer_nulls:
  "key \<noteq> ''DateTimeOriginal'' \<Longrightarrow>
     (\<exists>m n. raw = replicate m (CHR 0x00) @ field_value key raw @ replicate n (CHR 0x00))
     \<and> (field_value key raw = []
          \<or> (hd (field_value key raw) \<noteq> CHR 0x00 \<and> last (field_value key raw) \<noteq> CHR 0x00))"
  using str_strip_decomp [of raw "CHR 0x00"] str_strip_ends [of "CHR 0x00" raw]
  by (simp add: field_value_def)

theorem stored_value_strips_outer_nulls_witness:
  "''LensModel'' \<noteq> ''DateTimeOriginal''
   \<and> (\<exists>m n. [CHR 0x00, CHR ''a'', CHR 0x00, CHR ''b'', CHR 0x00]
         = replicate m (CHR 0x00)
           @ field_value ''LensModel'' [CHR 0x00, CHR ''a'', CHR 0x00, CHR ''b'', CHR 0x00]
           @ replicate n (CHR 0x00))
   \<and> field_value ''LensModel'' [CHR 0x00, CHR ''a'', CHR 0x00, CHR ''b'', CHR 0x00]
       = [CHR ''a'', CHR 0x00, CHR ''b'']
   \<and> hd (field_value ''LensModel'' [CHR 0x00, CHR ''a'', CHR 0x00, CHR ''b'', CHR 0x00])
       \<noteq> CHR 0x00
   \<and> last (field_value ''LensModel'' [CHR 0x00, CHR ''a'', CHR 0x00, CHR ''b'', CHR 0x00])
       \<noteq> CHR 0x00"
  using stored_value_strips_outer_nulls
    [of "''LensModel''" "[CHR 0x00, CHR ''a'', CHR 0x00, CHR ''b'', CHR 0x00]"]
  by (simp add: field_value_def str_strip_def)

text \<open>C9 as the specification states it fails: a null inside the tag string is stored.\<close>

theorem stored_value_keeps_inner_null:
  "CHR 0x00 \<in> set (field_value ''LensModel'' [CHR ''a'', CHR 0x00, CHR ''b''])"
  by (simp add: field_value_def str_strip_def)

subsection \<open>Counting\<close>

text \<open>
  C1, at a file that carries \<^verbatim>\<open>DateTimeOriginal\<close> and \<^verbatim>\<open>Model\<close> but none of the other
  five keys. The loop checks a key and counts it in the same iteration, so the two keys
  that come before the first missing one are counted before the worker returns: the file
  is not skipped as a whole.
\<close>

theorem incomplete_file_is_counted:
  "make_statistic
     (Exif [(''DateTimeOriginal'', ''2023:05:01 12:30:00''), (''Model'', ''X100'')])
     init_dict
   = (None,
      [(''DateTimeOriginal'', [(''2023-05-01'', 1)]), (''Model'', [(''X100'', 1)]),
       (''LensModel'', []), (''FNumber'', []), (''ExposureTime'', []),
       (''ISOSpeedRatings'', []), (''FocalLength'', [])])"
  by code_simp

text \<open>
  C3. An increment on a field of the table succeeds; it creates the entry with count 1
  when the value has none and adds 1 to the count otherwise, and changes nothing else.
  Hence, for every sequence of increments on tracked fields applied to the initial
  table, the final count of every (field, value) is the number of increments issued for
  it, and the entry exists exactly when there was one. Two sequences that are
  permutations of each other end in tables with the same fields and the same entries.
\<close>

theorem counts_order_independent:
  "(map_of t key = Some d \<longrightarrow>
      (\<exists>t' d'. increment key val t = Inr t' \<and> map_of t' key = Some d'
         \<and> (map_of d val = None \<longrightarrow> map_of d' val = Some 1)
         \<and> (\<forall>c. map_of d val = Some c \<longrightarrow> map_of d' val = Some (c + 1))
         \<and> (\<forall>v'. v' \<noteq> val \<longrightarrow> map_of d' v' = map_of d v')
         \<and> (\<forall>k'. k' \<noteq> key \<longrightarrow> map_of t' k' = map_of t k')))
   \<and> (fst ` set xs \<subseteq> set STATISTIC_KEYS \<longrightarrow>
      (\<exists>t'. apply_increments xs init_dict = Inr t'
         \<and> (\<forall>k v. count_of t' k v = int (count_list xs (k, v)))
         \<and> (\<forall>k v. entry t' k v =
                (if (k, v) \<in> set xs then Some (int (count_list xs (k, v))) else None))))
   \<and> (fst ` set xs \<subseteq> set STATISTIC_KEYS \<and> mset ys = mset xs \<longrightarrow>
      (\<exists>t1 t2. apply_increments xs init_dict = Inr t1
         \<and> apply_increments ys init_dict = Inr t2
         \<and> map fst t1 = map fst t2
         \<and> (\<forall>k v. entry t1 k v = entry t2 k v)))"
proof (intro conjI impI)
  assume "map_of t key = Some d"
  then show "\<exists>t' d'. increment key val t = Inr t' \<and> map_of t' key = Some d'
         \<and> (map_of d val = None \<longrightarrow> map_of d' val = Some 1)
         \<and> (\<forall>c. map_of d val = Some c \<longrightarrow> map_of d' val = Some (c + 1))
         \<and> (\<forall>v'. v' \<noteq> val \<longrightarrow> map_of d' v' = map_of d v')
         \<and> (\<forall>k'. k' \<noteq> key \<longrightarrow> map_of t' k' = map_of t k')"
    by (rule increment_effect)
next
  assume "fst ` set xs \<subseteq> set STATISTIC_KEYS"
  then show "\<exists>t'. apply_increments xs init_dict = Inr t'
         \<and> (\<forall>k v. count_of t' k v = int (count_list xs (k, v)))
         \<and> (\<forall>k v. entry t' k v =
                (if (k, v) \<in> set xs then Some (int (count_list xs (k, v))) else None))"
    by (rule apply_increments_init)
next
  assume "fst ` set xs \<subseteq> set STATISTIC_KEYS \<and> mset ys = mset xs"
  then show "\<exists>t1 t2. apply_increments xs init_dict = Inr t1
         \<and> apply_increments ys init_dict = Inr t2
         \<and> map fst t1 = map fst t2
         \<and> (\<forall>k v. entry t1 k v = entry t2 k v)"
    using apply_increments_perm by blast
qed

theorem counts_order_independent_witness:
  "map_of init_dict ''Model'' = Some []
   \<and> fst ` set [(''Model'', ''A''), (''Model'', ''B''), (''Model'', ''A'')] \<subseteq> set STATISTIC_KEYS
   \<and> mset [(''Model'', ''B''), (''Model'', ''A''), (''Model'', ''A'')]
       = mset [(''Model'', ''A''), (''Model'', ''B''), (''Model'', ''A'')]
   \<and> (\<exists>t'. increment ''Model'' ''A'' init_dict = Inr t'
         \<and> map_of t' ''Model'' = Some [(''A'', 1)])
   \<and> (\<exists>t1 t2.
         apply_increments [(''Model'', ''A''), (''Model'', ''B''), (''Model'', ''A'')] init_dict
           = Inr t1
         \<and> apply_increments [(''Model'', ''B''), (''Model'', ''A''), (''Model'', ''A'')] init_dict
           = Inr t2
         \<and> map fst t1 = map fst t2
         \<and> (\<forall>k v. entry t1 k v = entry t2 k v)
         \<and> entry t1 ''Model'' ''A'' = Some 2 \<and> entry t1 ''Model'' ''B'' = Some 1)"
proof -
  let ?xs = "[(''Model'', ''A''), (''Model'', ''B''), (''Model'', ''A'')]"
  let ?ys = "[(''Model'', ''B''), (''Model'', ''A''), (''Model'', ''A'')]"
  have h1: "map_of init_dict ''Model'' = Some []" by code_simp
  have h2: "fst ` set ?xs \<subseteq> set STATISTIC_KEYS" by (simp add: STATISTIC_KEYS_def)
  have h3: "mset ?ys = mset ?xs" by simp
  have e0: "increment ''Model'' ''A'' init_dict
      = Inr [(''DateTimeOriginal'', []), (''Model'', [(''A'', 1)]),
       (''LensModel'', []), (''FNumber'', []), (''ExposureTime'', []),
       (''ISOSpeedRatings'', []), (''FocalLength'', [])]"
    by code_simp
  have e1: "apply_increments ?xs init_dict
      = Inr [(''DateTimeOriginal'', []), (''Model'', [(''A'', 2), (''B'', 1)]),
       (''LensModel'', []), (''FNumber'', []), (''ExposureTime'', []),
       (''ISOSpeedRatings'', []), (''FocalLength'', [])]"
    by code_simp
  have e1a: "entry [(''DateTimeOriginal'', []), (''Model'', [(''A'', 2), (''B'', 1)]),
       (''LensModel'', []), (''FNumber'', []), (''ExposureTime'', []),
       (''ISOSpeedRatings'', []), (''FocalLength'', [])] ''Model'' ''A'' = Some 2"
    by code_simp
  have e1b: "entry [(''DateTimeOriginal'', []), (''Model'', [(''A'', 2), (''B'', 1)]),
       (''LensModel'', []), (''FNumber'', []), (''ExposureTime'', []),
       (''ISOSpeedRatings'', []), (''FocalLength'', [])] ''Model'' ''B'' = Some 1"
    by code_simp
  have e0a: "map_of [(''DateTimeOriginal'', []), (''Model'', [(''A'', 1::int)]),
       (''LensModel'', []), (''FNumber'', []), (''ExposureTime'', []),
       (''ISOSpeedRatings'', []), (''FocalLength'', [])] ''Model'' = Some [(''A'', 1)]"
    by code_simp
  from counts_order_independent [of init_dict "''Model''" "[]" "''A''" ?xs ?ys] h2 h3
  obtain t1 t2 where t: "apply_increments ?xs init_dict = Inr t1"
      "apply_increments ?ys init_dict = Inr t2" "map fst t1 = map fst t2"
      "\<forall>k v. entry t1 k v = entry t2 k v"
    by blast
  from t(1) e1 have "entry t1 ''Model'' ''A'' = Some 2 \<and> entry t1 ''Model'' ''B'' = Some 1"
    using e1a e1b by simp
  with t have "\<exists>t1 t2.
         apply_increments ?xs init_dict = Inr t1
         \<and> apply_increments ?ys init_dict = Inr t2
         \<and> map fst t1 = map fst t2
         \<and> (\<forall>k v. entry t1 k v = entry t2 k v)
         \<and> entry t1 ''Model'' ''A'' = Some 2 \<and> entry t1 ''Model'' ''B'' = Some 1"
    by blast
  moreover have "\<exists>t'. increment ''Model'' ''A'' init_dict = Inr t'
         \<and> map_of t' ''Model'' = Some [(''A'', 1)]"
    using e0 e0a by simp
  ultimately show ?thesis using h1 h2 h3 by blast
qed

subsection \<open>The dispatcher\<close>

lemma count_keys_ok:
  "set keys \<subseteq> fst ` set t \<Longrightarrow>
   fst (count_keys keys e t) = None \<and> map fst (snd (count_keys keys e t)) = map fst t"
proof (induction keys arbitrary: t)
  case (Cons key keys)
  show ?case
  proof (cases "map_of e key")
    case None
    then show ?thesis by simp
  next
    case (Some raw)
    from Cons.prems have "map_of t key \<noteq> None" by (simp add: map_of_eq_None_iff)
    then obtain t1 where t1: "increment key (field_value key raw) t = Inr t1"
      by (auto simp add: increment_Some)
    have k: "map fst t1 = map fst t" using t1 by (rule increment_keys)
    then have "fst ` set t1 = fst ` set t" by (metis set_map)
    with Cons.prems have "set keys \<subseteq> fst ` set t1" by simp
    from Cons.IH[OF this] show ?thesis by (simp add: Some t1 k)
  qed
qed simp

lemma make_statistic_ok:
  assumes "set STATISTIC_KEYS \<subseteq> fst ` set t"
  shows "fst (make_statistic f t) = (if f = Unreadable then Some OSError else None)"
    and "map fst (snd (make_statistic f t)) = map fst t"
  using count_keys_ok[OF assms] by (cases f; simp)+

lemma run_pool_results:
  "set STATISTIC_KEYS \<subseteq> fst ` set t \<Longrightarrow>
   fst (run_pool files t) = map (\<lambda>f. if f = Unreadable then Some OSError else None) files
   \<and> map fst (snd (run_pool files t)) = map fst t"
proof (induction files arbitrary: t)
  case (Cons f files)
  obtain r t1 where m: "make_statistic f t = (r, t1)" by (cases "make_statistic f t")
  from make_statistic_ok[OF Cons.prems, of f] m
  have r: "r = (if f = Unreadable then Some OSError else None)" and k: "map fst t1 = map fst t"
    by simp_all
  from k have "fst ` set t1 = fst ` set t" by (metis set_map)
  with Cons.prems have "set STATISTIC_KEYS \<subseteq> fst ` set t1" by simp
  from Cons.IH[OF this] show ?case by (auto simp add: m r k split: prod.splits)
qed simp

lemma get_tasks_raises:
  "length rs = length ws \<Longrightarrow> Interrupted \<notin> set ws \<Longrightarrow>
   (Some e, InTime) \<in> set (zip rs ws) \<Longrightarrow> \<forall>r \<in> set rs. r = None \<or> r = Some e \<Longrightarrow>
   get_tasks (zip rs ws) = Inl e"
proof (induction rs ws rule: list_induct2)
  case (Cons r rs w ws)
  then show ?case by (cases w; cases r) auto
qed simp

lemma get_tasks_through:
  "length rs = length ws \<Longrightarrow> \<forall>(r, w) \<in> set (zip rs ws). w = Lapsed \<or> (w = InTime \<and> r = None) \<Longrightarrow>
   get_tasks (zip rs ws) = Inr True"
proof (induction rs ws rule: list_induct2)
  case (Cons r rs w ws)
  then show ?case by (cases w; cases r) auto
qed simp

lemma init_dict_keys': "fst ` set init_dict = set STATISTIC_KEYS"
  using init_dict_keys by (metis set_map)


lemma get_statistic_dict_raises:
  assumes u: "(Unreadable, InTime) \<in> set files" and ni: "Interrupted \<notin> snd ` set files"
  shows "get_statistic_dict files = Inl OSError"
proof -
  let ?rs = "map (\<lambda>f. if f = Unreadable then Some OSError else None) (map fst files)"
  obtain rs t where rp: "run_pool (map fst files) init_dict = (rs, t)"
    by (cases "run_pool (map fst files) init_dict")
  have "set STATISTIC_KEYS \<subseteq> fst ` set init_dict" by (simp add: init_dict_keys')
  from run_pool_results[OF this, of "map fst files"] rp have rs: "rs = ?rs" by simp
  have z: "zip ?rs (map snd files)
      = map (\<lambda>(f, w). (if f = Unreadable then Some OSError else None, w)) files"
    by (induction files) auto
  from u have a: "(Some OSError, InTime) \<in> set (zip ?rs (map snd files))"
    unfolding z by force
  have b: "length ?rs = length (map snd files)" by simp
  from ni have c: "Interrupted \<notin> set (map snd files)" by simp
  have d: "\<forall>r \<in> set ?rs. r = None \<or> r = Some OSError" by auto
  have "get_tasks (zip ?rs (map snd files)) = Inl OSError"
    using b c a d by (rule get_tasks_raises)
  then show ?thesis by (simp add: get_statistic_dict_def rp rs)
qed

lemma get_statistic_dict_returns:
  assumes ok: "\<forall>(f, w) \<in> set files. w = Lapsed \<or> (w = InTime \<and> f \<noteq> Unreadable)"
  shows "\<exists>t. get_statistic_dict files = Inr (Dict t)"
proof -
  let ?rs = "map (\<lambda>f. if f = Unreadable then Some OSError else None) (map fst files)"
  obtain rs t where rp: "run_pool (map fst files) init_dict = (rs, t)"
    by (cases "run_pool (map fst files) init_dict")
  have "set STATISTIC_KEYS \<subseteq> fst ` set init_dict" by (simp add: init_dict_keys')
  from run_pool_results[OF this, of "map fst files"] rp have rs: "rs = ?rs" by simp
  have z: "zip ?rs (map snd files)
      = map (\<lambda>(f, w). (if f = Unreadable then Some OSError else None, w)) files"
    by (induction files) auto
  have a: "\<forall>(r, w) \<in> set (zip ?rs (map snd files)). w = Lapsed \<or> (w = InTime \<and> r = None)"
    unfolding z using ok by auto
  have b: "length ?rs = length (map snd files)" by simp
  have "get_tasks (zip ?rs (map snd files)) = Inr True"
    using b a by (rule get_tasks_through)
  then show ?thesis by (simp add: get_statistic_dict_def rp rs)
qed

text \<open>
  C2, as the code has it. A file that cannot be opened or read contributes nothing to
  the table, but its failure is not passed over like a missing EXIF block: unless an
  interrupt occurs, the exception of its worker is raised again when the dispatcher
  collects the task within the timeout, and \<^verbatim>\<open>get_statistic_dict\<close> ends with that
  exception instead of a table. The run does return a table when every task either
  lapses or belongs to a readable file.
\<close>

theorem extraction_error_propagates:
  "make_statistic Unreadable t = (Some OSError, t)
   \<and> ((Unreadable, InTime) \<in> set files \<and> Interrupted \<notin> snd ` set files \<longrightarrow>
        get_statistic_dict files = Inl OSError)
   \<and> ((\<forall>(f, w) \<in> set files. w = Lapsed \<or> (w = InTime \<and> f \<noteq> Unreadable)) \<longrightarrow>
        (\<exists>t'. get_statistic_dict files = Inr (Dict t')))"
  using get_statistic_dict_raises[of files] get_statistic_dict_returns[of files] by simp

theorem extraction_error_propagates_witness:
  "(Unreadable, InTime) \<in> set [(NoExif, InTime), (Unreadable, InTime), (NoExif, Lapsed)]
   \<and> Interrupted \<notin> snd ` set [(NoExif, InTime), (Unreadable, InTime), (NoExif, Lapsed)]
   \<and> get_statistic_dict [(NoExif, InTime), (Unreadable, InTime), (NoExif, Lapsed)] = Inl OSError
   \<and> list_all (\<lambda>(f, w). w = Lapsed \<or> (w = InTime \<and> f \<noteq> Unreadable))
        [(NoExif, InTime), (Unreadable, Lapsed)]
   \<and> (\<exists>t'. get_statistic_dict [(NoExif, InTime), (Unreadable, Lapsed)] = Inr (Dict t'))"
  using extraction_error_propagates
      [of init_dict "[(NoExif, InTime), (Unreadable, InTime), (NoExif, Lapsed)]"]
    extraction_error_propagates [of init_dict "[(NoExif, InTime), (Unreadable, Lapsed)]"]
  by simp

text \<open>C2 as the specification states it fails: one unreadable file among the files ends
  the run with its exception.\<close>

theorem unreadable_file_aborts_run:
  "get_statistic_dict [(Unreadable, InTime), (NoExif, InTime)] = Inl OSError"
  by code_simp

subsection \<open>The table during a run\<close>

lemma distinct_STATISTIC_KEYS: "distinct STATISTIC_KEYS"
  by (simp add: STATISTIC_KEYS_def)

lemma sum_update:
  "sum_list (map snd (AList.update v c d))
     = sum_list (map snd d) - (case map_of d v of None \<Rightarrow> 0 | Some c0 \<Rightarrow> c0) + (c::int)"
  by (induction d) auto

lemma set_update_cases:
  "x \<in> set (AList.update v c d) \<Longrightarrow> x = (v, c) \<or> x \<in> set d"
  by (induction d) (auto split: if_splits)

lemma bumped_dict:
  fixes d :: counts and v :: string
  assumes dist: "distinct (map fst d)" and pos: "\<forall>(v, c) \<in> set d. 1 \<le> c"
  defines "d' \<equiv> AList.update v (case map_of d v of None \<Rightarrow> 1 | Some c \<Rightarrow> c + 1) d"
  shows "distinct (map fst d')" and "\<forall>(v, c) \<in> set d'. 1 \<le> c"
    and "sum_list (map snd d') = sum_list (map snd d) + 1"
proof -
  show "distinct (map fst d')" unfolding d'_def using dist by (rule AList.distinct_update)
  have one: "1 \<le> (case map_of d v of None \<Rightarrow> 1 | Some c \<Rightarrow> c + 1)"
  proof (cases "map_of d v")
    case (Some c)
    then have "(v, c) \<in> set d" by (rule map_of_SomeD)
    with pos have "1 \<le> c" by auto
    with Some show ?thesis by simp
  qed simp
  show "\<forall>(v, c) \<in> set d'. 1 \<le> c"
  proof (clarify)
    fix a b assume "(a, b) \<in> set d'"
    then have "(a, b) = (v, case map_of d v of None \<Rightarrow> 1 | Some c \<Rightarrow> c + 1) \<or> (a, b) \<in> set d"
      unfolding d'_def by (rule set_update_cases)
    with one pos show "1 \<le> b" by auto
  qed
  show "sum_list (map snd d') = sum_list (map snd d) + 1"
    unfolding d'_def by (simp add: sum_update split: option.splits)
qed

lemma filter_length_update:
  "i < length ws \<Longrightarrow>
   int (length (filter P (ws[i := w'])))
     = int (length (filter P ws)) - (if P (ws ! i) then 1 else 0) + (if P w' then 1 else 0)"
proof (induction ws arbitrary: i)
  case (Cons a ws)
  show ?case
  proof (cases i)
    case 0
    then show ?thesis by simp
  next
    case (Suc j)
    with Cons.prems have "j < length ws" by simp
    from Cons.IH[OF this] show ?thesis by (auto simp add: Suc split: if_splits)
  qed
qed simp

lemma worker_step_cases:
  assumes "worker_step w t = Some (w', t')"
  shows "(w' = w\<lparr>returned := True\<rparr> \<and> t' = t)
       \<or> (\<exists>e raw. img w = Exif e \<and> pc w < length STATISTIC_KEYS
            \<and> map_of e (STATISTIC_KEYS ! pc w) = Some raw
            \<and> increment (STATISTIC_KEYS ! pc w) (field_value (STATISTIC_KEYS ! pc w) raw) t = Inr t'
            \<and> w' = w\<lparr>pc := pc w + 1\<rparr>)"
  using assms
  by (auto simp add: worker_step_def split: if_splits photo.splits option.splits sum.splits)

lemma counted_returned [simp]: "counted key (w\<lparr>returned := b\<rparr>) = counted key w"
  by (simp add: counted_def)

lemma counted_advance:
  "pc w < length STATISTIC_KEYS \<Longrightarrow>
   counted key (w\<lparr>pc := pc w + 1\<rparr>) = (counted key w \<or> key = STATISTIC_KEYS ! pc w)"
  by (auto simp add: counted_def take_Suc_conv_app_nth)

lemma not_counted_current:
  "pc w < length STATISTIC_KEYS \<Longrightarrow> \<not> counted (STATISTIC_KEYS ! pc w) w"
proof
  assume lt: "pc w < length STATISTIC_KEYS" and c: "counted (STATISTIC_KEYS ! pc w) w"
  from c obtain j where j: "j < pc w" "STATISTIC_KEYS ! j = STATISTIC_KEYS ! pc w"
    by (auto simp add: counted_def in_set_conv_nth)
  with lt distinct_STATISTIC_KEYS show False
    by (metis less_trans nat_neq_iff nth_eq_iff_index_eq)
qed


lemma table_inv_init: "table_inv files (map start files, init_dict)"
proof -
  have 1: "map img (map start files) = files"
    by (induction files) (simp_all add: start_def)
  have 2: "\<not> counted key w" if "w \<in> set (map start files)" for key w
    using that by (auto simp add: counted_def start_def)
  then have 3: "filter (counted key) (map start files) = []" for key
    by (simp add: filter_empty_conv)
  have 4: "d = []" if "map_of init_dict key = Some d" for key d
    using that by (simp add: map_of_init_dict split: if_splits)
  show ?thesis
    unfolding table_inv_def using 1 2 3 by (auto simp add: init_dict_keys dest!: 4)
qed

lemma table_inv_step:
  assumes inv: "table_inv files c" and st: "step c c'"
  shows "table_inv files c'"
  using st
proof (cases rule: step.cases)
  case (1 i ws t w' t')
  note c = \<open>c = (ws, t)\<close> and c' = \<open>c' = (ws[i := w'], t')\<close> and i = \<open>i < length ws\<close>
  let ?w = "ws ! i"
  from inv c have keys: "map fst t = STATISTIC_KEYS" and imgs: "map img ws = files"
    and car: "\<And>w key. w \<in> set ws \<Longrightarrow> counted key w \<Longrightarrow> carries key (img w)"
    and dct: "\<And>key d. map_of t key = Some d \<Longrightarrow>
            distinct (map fst d) \<and> (\<forall>(v, c) \<in> set d. 1 \<le> c)
          \<and> sum_list (map snd d) = int (length (filter (counted key) ws))"
    by (auto simp add: table_inv_def)
  from i have wi: "?w \<in> set ws" by simp
  from worker_step_cases[OF \<open>worker_step ?w t = Some (w', t')\<close>]
  show ?thesis
  proof (elim disjE conjE exE)
    assume w': "w' = ?w\<lparr>returned := True\<rparr>" and t': "t' = t"
    have img': "img w' = img ?w" by (simp add: w')
    have cnt: "counted key w' = counted key ?w" for key by (simp add: w')
    have a: "map img (ws[i := w']) = files"
      using imgs i img' by (simp add: map_update) (metis list_update_id nth_map length_map)
    have b: "carries key (img w)" if "w \<in> set (ws[i := w'])" "counted key w" for w key
    proof -
      from that(1) have "w = w' \<or> w \<in> set ws"
        using set_update_subset_insert[of ws i w'] by auto
      then show ?thesis using that(2) car wi cnt img' by metis
    qed
    have d: "length (filter (counted key) (ws[i := w'])) = length (filter (counted key) ws)"
      for key
      using filter_length_update[OF i, of "counted key" w'] by (simp add: cnt)
    show ?thesis
      unfolding c' t' table_inv_def using keys a b dct by (simp add: d)
  next
    fix e raw
    let ?k = "STATISTIC_KEYS ! pc ?w"
    assume im: "img ?w = Exif e" and lt: "pc ?w < length STATISTIC_KEYS"
      and raw: "map_of e ?k = Some raw"
      and inc: "increment ?k (field_value ?k raw) t = Inr t'"
      and w': "w' = ?w\<lparr>pc := pc ?w + 1\<rparr>"
    have img': "img w' = img ?w" by (simp add: w')
    have cnt: "counted key w' = (counted key ?w \<or> key = ?k)" for key
      unfolding w' using lt by (rule counted_advance)
    have nc: "\<not> counted ?k ?w" using lt by (rule not_counted_current)
    have keys': "map fst t' = STATISTIC_KEYS" using increment_keys[OF inc] keys by simp
    have a: "map img (ws[i := w']) = files"
      using imgs i img' by (simp add: map_update) (metis list_update_id nth_map length_map)
    have ck: "carries ?k (img ?w)" by (simp add: carries_def im raw)
    have b: "carries key (img w)" if "w \<in> set (ws[i := w'])" "counted key w" for w key
    proof -
      from that(1) have "w = w' \<or> w \<in> set ws"
        using set_update_subset_insert[of ws i w'] by auto
      then show ?thesis using that(2) car wi cnt img' ck by metis
    qed
    from inc obtain d0 where d0: "map_of t ?k = Some d0" by (blast dest: increment_InrD)
    let ?d' = "AList.update (field_value ?k raw)
                 (case map_of d0 (field_value ?k raw) of None \<Rightarrow> 1 | Some c \<Rightarrow> c + 1) d0"
    from inc d0 have t': "t' = AList.update ?k ?d' t" by (simp add: increment_Some)
    have m: "map_of t' key = (if key = ?k then Some ?d' else map_of t key)" for key
      by (simp add: t' AList.update_conv')
    have dd: "distinct (map fst d) \<and> (\<forall>(v, c) \<in> set d. 1 \<le> c)
          \<and> sum_list (map snd d) = int (length (filter (counted key) (ws[i := w'])))"
      if md: "map_of t' key = Some d" for key d
    proof (cases "key = ?k")
      case True
      with md m have d: "d = ?d'" by simp
      from dct[OF d0] have h: "distinct (map fst d0)" "\<forall>(v, c) \<in> set d0. 1 \<le> c"
        "sum_list (map snd d0) = int (length (filter (counted ?k) ws))" by simp_all
      have "int (length (filter (counted ?k) (ws[i := w'])))
              = int (length (filter (counted ?k) ws)) + 1"
        using filter_length_update[OF i, of "counted ?k" w'] nc cnt[of ?k] by simp
      with bumped_dict[OF h(1) h(2), of "field_value ?k raw"] h(3) show ?thesis
        unfolding d True by simp
    next
      case False
      with md m have "map_of t key = Some d" by simp
      moreover have "length (filter (counted key) (ws[i := w']))
              = length (filter (counted key) ws)"
        using filter_length_update[OF i, of "counted key" w'] cnt[of key] False by simp
      ultimately show ?thesis using dct[of key d] by simp
    qed
    show ?thesis
      unfolding c' table_inv_def using keys' a b dd by simp
  qed
qed

lemma reachable_table_inv: "reachable files c \<Longrightarrow> table_inv files c"
  unfolding reachable_def
proof (induction rule: rtranclp_induct)
  case base
  show ?case by (rule table_inv_init)
next
  case (step y z)
  then show ?case using table_inv_step by blast
qed





subsection \<open>Bounded denominators\<close>

lemma limit_loop_ok:
  assumes "1 \<le> m" "m < D"
    and "0 \<le> q0" "q0 \<le> m" "0 \<le> q1" "q1 \<le> m" "0 \<le> d" "q1 = 0 \<or> 0 < n"
    and "q1 * n + q0 * d = D" "coprime n d"
  shows "\<exists>p0' q0' p1' q1' n' d'.
           limit_loop m p0 q0 p1 q1 n d = Inr (p0', q0', p1', q1', n', d')
         \<and> 0 \<le> q0' \<and> q0' \<le> m \<and> 1 \<le> q1' \<and> q1' \<le> m"
  using assms
proof (induction m p0 q0 p1 q1 n d rule: limit_loop.induct)
  case (1 m p0 q0 p1 q1 n d)
  note p = "1.prems"
  have dnz: "d \<noteq> 0"
  proof
    assume d0: "d = 0"
    with p(10) have "\<bar>n\<bar> = 1" by simp
    with p(9) d0 have "D = q1 \<or> D = - q1" by (auto simp add: abs_if split: if_splits)
    with p(1,2,5,6) show False by auto
  qed
  with p(7) have dpos: "0 < d" by simp
  let ?a = "n div d"
  have aq: "0 \<le> ?a * q1"
  proof (cases "q1 = 0")
    case False
    with p(8) have "0 < n" by simp
    with dpos have "0 \<le> ?a" by (simp add: pos_imp_zdiv_nonneg_iff)
    with p(5) show ?thesis by simp
  qed simp
  show ?case
  proof (cases "q0 + ?a * q1 > m")
    case True
    have "q1 \<noteq> 0" using True p(4) by auto
    with p(5) have q1: "1 \<le> q1" by simp
    have "limit_loop m p0 q0 p1 q1 n d = Inr (p0, q0, p1, q1, n, d)"
      using True dnz by (subst limit_loop.simps) simp
    with q1 p(3,4,6) show ?thesis by simp
  next
    case False
    have eq: "limit_loop m p0 q0 p1 q1 n d
        = limit_loop m p1 q1 (p0 + ?a * p1) (q0 + ?a * q1) d (n - ?a * d)"
      using False dnz by (subst limit_loop.simps) simp
    have md: "n - ?a * d = n mod d" by (simp add: minus_div_mult_eq_mod)
    have i1: "0 \<le> q0 + ?a * q1" using aq p(3) by simp
    have i2: "q0 + ?a * q1 \<le> m" using False by simp
    have i3: "0 \<le> n - ?a * d" unfolding md using dpos by simp
    have i4: "q0 + ?a * q1 = 0 \<or> 0 < d" using dpos by simp
    have "(q0 + ?a * q1) * d + q1 * (n - ?a * d) = q1 * n + q0 * d" by (simp add: algebra_simps)
    with p(9) have i5: "(q0 + ?a * q1) * d + q1 * (n - ?a * d) = D" by simp
    have "gcd d (n mod d) = gcd n d" by (metis gcd.commute gcd_red_int)
    with p(10) have i6: "coprime d (n - ?a * d)" unfolding md
      by (simp add: coprime_iff_gcd_eq_1)
    have "\<not> m < q0 + ?a * q1" using False by simp
    from "1.IH"[OF dnz this p(1,2,5,6) i1 i2 i3 i4 i5 i6]
    show ?thesis unfolding eq .
  qed
qed


lemma denom_Fract_le: "0 < b \<Longrightarrow> snd (quotient_of (Fract a b)) \<le> b"
proof -
  assume b: "0 < b"
  then have g: "1 \<le> gcd a b" by (simp add: int_one_le_iff_zero_less)
  have "b div gcd a b \<le> b div 1"
    using b g by (intro zdiv_mono2) simp_all
  then have "b div gcd a b \<le> b" by simp
  moreover have "quotient_of (Fract a b) = (a div gcd a b, b div gcd a b)"
    using b by (simp only: quotient_of_Fract Rat.normalize_def Let_def snd_conv fst_conv if_True)
  ultimately show ?thesis by simp
qed

lemma limit_denominator_to_ok:
  assumes m: "1 \<le> m"
  shows "\<exists>r'. limit_denominator_to m r = Inr r' \<and> snd (quotient_of r') \<le> m"
proof (cases "snd (quotient_of r) \<le> m")
  case True
  with m show ?thesis by (simp add: limit_denominator_to_def)
next
  case False
  let ?n = "fst (quotient_of r)" and ?d = "snd (quotient_of r)"
  have cop: "coprime ?n ?d" by (rule quotient_of_coprime) simp
  have dpos: "0 < ?d" by (rule quotient_of_denom_pos')
  from False have big: "m < ?d" by simp
  from limit_loop_ok[of m ?d 1 0 ?d ?n 0 1] m big dpos cop
  obtain p0 q0 p1 q1 n d where
    loop: "limit_loop m 0 1 1 0 ?n ?d = Inr (p0, q0, p1, q1, n, d)"
    and q: "0 \<le> q0" "q0 \<le> m" "1 \<le> q1" "q1 \<le> m"
    by auto
  let ?k = "(m - q0) div q1"
  let ?den = "q0 + ?k * q1"
  from q have q1pos: "0 < q1" by simp
  have dm: "?k * q1 + (m - q0) mod q1 = m - q0" by simp
  have r0: "0 \<le> (m - q0) mod q1" using q1pos by simp
  have r1: "(m - q0) mod q1 < q1" using q1pos by simp
  from dm r0 have le: "?den \<le> m" by linarith
  from dm r1 q have pos: "0 < ?den" by linarith
  have b1: "mk_Fraction (p0 + ?k * p1) ?den = Inr (Fract (p0 + ?k * p1) ?den)"
    using pos by (simp add: mk_Fraction_def)
  have b2: "mk_Fraction p1 q1 = Inr (Fract p1 q1)"
    using q1pos by (simp add: mk_Fraction_def)
  have d1: "snd (quotient_of (Fract (p0 + ?k * p1) ?den)) \<le> m"
    using denom_Fract_le[OF pos, of "p0 + ?k * p1"] le by linarith
  have d2: "snd (quotient_of (Fract p1 q1)) \<le> m"
    using denom_Fract_le[OF q1pos, of p1] q by linarith
  have "limit_denominator_to m r =
     (if \<bar>Fract p1 q1 - r\<bar> \<le> \<bar>Fract (p0 + ?k * p1) ?den - r\<bar> then Inr (Fract p1 q1)
      else Inr (Fract (p0 + ?k * p1) ?den))"
    using m False q1pos by (simp add: limit_denominator_to_def loop b1 b2)
  with d1 d2 show ?thesis by simp
qed

lemma limit_denominator_ok:
  "\<exists>r'. limit_denominator r = Inr r' \<and> snd (quotient_of r') \<le> 1000000"
  unfolding limit_denominator_def by (rule limit_denominator_to_ok) simp

subsection \<open>Sorting by a parsed key\<close>

lemma keyed_Inr:
  "keyed f items = Inr ks \<Longrightarrow>
   map snd ks = items \<and> (\<forall>(k, item) \<in> set ks. f (fst item) = Inr k)"
proof (induction items arbitrary: ks)
  case (Cons item items)
  from Cons.prems obtain k ks' where k: "f (fst item) = Inr k"
    and ks': "keyed f items = Inr ks'" and ks: "ks = (k, item) # ks'"
    by (auto split: sum.splits)
  from Cons.IH[OF ks'] k show ?case by (simp add: ks)
qed simp

lemma keyed_Inl:
  "keyed f items = Inl e \<Longrightarrow> \<exists>v \<in> fst ` set items. f v = Inl e"
proof (induction items)
  case (Cons item items)
  then show ?case by (auto split: sum.splits)
qed simp

lemma keyed_fails:
  "v \<in> fst ` set items \<Longrightarrow> f v = Inl e \<Longrightarrow> \<exists>e'. keyed f items = Inl e'"
proof (induction items)
  case (Cons item items)
  then show ?case by (cases "f (fst item)"; cases "keyed f items") auto
qed simp

lemma keyed_succeeds:
  "\<forall>v \<in> fst ` set items. \<exists>k. f v = Inr k \<Longrightarrow> \<exists>ks. keyed f items = Inr ks"
proof (induction items)
  case (Cons item items)
  then obtain k ks where "f (fst item) = Inr k" "keyed f items = Inr ks" by auto
  then show ?case by simp
qed simp

lemma sorted_by_Inr:
  assumes "sorted_by f items = Inr out"
  shows "mset out = mset items"
    and "\<exists>ks. map (\<lambda>item. f (fst item)) out = map Inr ks \<and> sorted ks"
proof -
  from assms obtain ks0 where k0: "keyed f items = Inr ks0"
    and out: "out = map snd (sort_key fst ks0)"
    by (auto simp add: sorted_by_def split: sum.splits)
  from keyed_Inr[OF k0] have m: "map snd ks0 = items"
    and p: "\<forall>(k, item) \<in> set ks0. f (fst item) = Inr k" by simp_all
  have "mset out = image_mset snd (mset (sort_key fst ks0))" by (simp add: out)
  also have "\<dots> = image_mset snd (mset ks0)" by simp
  also have "\<dots> = mset (map snd ks0)" by simp
  finally show "mset out = mset items" by (simp add: m)
  let ?s = "sort_key fst ks0"
  have "map (\<lambda>item. f (fst item)) out = map Inr (map fst ?s)"
    using p by (auto simp add: out)
  moreover have "sorted (map fst ?s)" by (rule sorted_sort_key)
  ultimately show "\<exists>ks. map (\<lambda>item. f (fst item)) out = map Inr ks \<and> sorted ks" by blast
qed

lemma sorted_by_Inl:
  "sorted_by f items = Inl e \<Longrightarrow> \<exists>v \<in> fst ` set items. f v = Inl e"
  by (auto simp add: sorted_by_def split: sum.splits dest: keyed_Inl)

lemma sorted_by_fails:
  "v \<in> fst ` set items \<Longrightarrow> f v = Inl e \<Longrightarrow> \<exists>e'. sorted_by f items = Inl e'"
  using keyed_fails[of v items f e] by (auto simp add: sorted_by_def)

lemma sorted_by_succeeds:
  "\<forall>v \<in> fst ` set items. \<exists>k. f v = Inr k \<Longrightarrow> \<exists>out. sorted_by f items = Inr out"
  using keyed_succeeds[of items f] by (auto simp add: sorted_by_def)

lemma field_cases:
  obtains (exposure) "k = ''ExposureTime''"
  | (float) "k = ''FNumber'' \<or> k = ''FocalLength''"
  | (iso) "k = ''ISOSpeedRatings''"
  | (date) "k = ''DateTimeOriginal''"
  | (other) "k \<noteq> ''ExposureTime''" "k \<noteq> ''FNumber''" "k \<noteq> ''FocalLength''"
      "k \<noteq> ''ISOSpeedRatings''" "k \<noteq> ''DateTimeOriginal''"
  by blast

lemma sorted_items_exposure:
  "sorted_items L ''ExposureTime'' d = sorted_by (py_Fraction L) d"
  by (simp add: sorted_items_def)

lemma sorted_items_float:
  "k = ''FNumber'' \<or> k = ''FocalLength'' \<Longrightarrow> sorted_items L k d = sorted_by (py_float L) d"
  by (auto simp add: sorted_items_def)

lemma sorted_items_iso:
  "sorted_items L ''ISOSpeedRatings'' d = sorted_by (py_int L) d"
  by (simp add: sorted_items_def)

lemma sorted_items_date:
  "sorted_items L ''DateTimeOriginal'' d = sorted_by (py_fromisoformat L) d"
  by (simp add: sorted_items_def)

lemma sorted_items_other:
  "k \<noteq> ''ExposureTime'' \<Longrightarrow> k \<noteq> ''FNumber'' \<Longrightarrow> k \<noteq> ''FocalLength'' \<Longrightarrow>
   k \<noteq> ''ISOSpeedRatings'' \<Longrightarrow> k \<noteq> ''DateTimeOriginal'' \<Longrightarrow>
   sorted_items L k d = Inr (sort_key fst d)"
  by (simp add: sorted_items_def)

lemma parse_error_exposure:
  "parse_error L ''ExposureTime'' v = (case py_Fraction L v of Inl e \<Rightarrow> Some e | Inr _ \<Rightarrow> None)"
  by (simp add: parse_error_def)

lemma parse_error_float:
  "k = ''FNumber'' \<or> k = ''FocalLength'' \<Longrightarrow>
   parse_error L k v = (case py_float L v of Inl e \<Rightarrow> Some e | Inr _ \<Rightarrow> None)"
  by (auto simp add: parse_error_def)

lemma parse_error_iso:
  "parse_error L ''ISOSpeedRatings'' v = (case py_int L v of Inl e \<Rightarrow> Some e | Inr _ \<Rightarrow> None)"
  by (simp add: parse_error_def)

lemma parse_error_date:
  "parse_error L ''DateTimeOriginal'' v
     = (case py_fromisoformat L v of Inl e \<Rightarrow> Some e | Inr _ \<Rightarrow> None)"
  by (simp add: parse_error_def)

lemma parse_error_other:
  "k \<noteq> ''ExposureTime'' \<Longrightarrow> k \<noteq> ''FNumber'' \<Longrightarrow> k \<noteq> ''FocalLength'' \<Longrightarrow>
   k \<noteq> ''ISOSpeedRatings'' \<Longrightarrow> k \<noteq> ''DateTimeOriginal'' \<Longrightarrow>
   parse_error L k v = None"
  by (simp add: parse_error_def)

lemma sorted_by_Inl_parse:
  assumes "sorted_by f d = Inl e"
    and "\<And>v. pe v = (case f v of Inl e \<Rightarrow> Some e | Inr _ \<Rightarrow> None)"
  shows "\<exists>v \<in> fst ` set d. pe v = Some e"
proof -
  from sorted_by_Inl[OF assms(1)] obtain v where "v \<in> fst ` set d" "f v = Inl e" by blast
  then show ?thesis using assms(2)[of v] by auto
qed

lemma sorted_items_Inl:
  assumes "sorted_items L k d = Inl e"
  shows "\<exists>v \<in> fst ` set d. parse_error L k v = Some e"
proof (cases k rule: field_cases)
  case exposure
  show ?thesis unfolding exposure
    by (rule sorted_by_Inl_parse[where f = "py_Fraction L"])
      (use assms exposure in \<open>simp_all only: sorted_items_exposure parse_error_exposure\<close>)
next
  case float
  show ?thesis
    by (rule sorted_by_Inl_parse[where f = "py_float L"])
      (use assms float in \<open>simp_all only: sorted_items_float parse_error_float\<close>)
next
  case iso
  show ?thesis unfolding iso
    by (rule sorted_by_Inl_parse[where f = "py_int L"])
      (use assms iso in \<open>simp_all only: sorted_items_iso parse_error_iso\<close>)
next
  case date
  show ?thesis unfolding date
    by (rule sorted_by_Inl_parse[where f = "py_fromisoformat L"])
      (use assms date in \<open>simp_all only: sorted_items_date parse_error_date\<close>)
next
  case other
  from assms show ?thesis by (simp add: sorted_items_other[OF other])
qed

lemma sorted_by_fails_parse:
  assumes "v \<in> fst ` set d" "pe v = Some e"
    and "\<And>v. pe v = (case f v of Inl e \<Rightarrow> Some e | Inr _ \<Rightarrow> None)"
  shows "\<exists>e'. sorted_by f d = Inl e'"
proof -
  from assms(2) assms(3)[of v] have "f v = Inl e" by (simp split: sum.splits)
  with assms(1) show ?thesis by (rule sorted_by_fails)
qed

lemma sorted_items_fails:
  assumes "v \<in> fst ` set d" "parse_error L k v = Some e"
  shows "\<exists>e'. sorted_items L k d = Inl e'"
proof (cases k rule: field_cases)
  case exposure
  have "\<exists>e'. sorted_by (py_Fraction L) d = Inl e'"
    using assms by (rule sorted_by_fails_parse) (simp only: exposure parse_error_exposure)
  then show ?thesis by (simp only: exposure sorted_items_exposure)
next
  case float
  have "\<exists>e'. sorted_by (py_float L) d = Inl e'"
    using assms by (rule sorted_by_fails_parse) (simp only: parse_error_float[OF float])
  then show ?thesis by (simp only: sorted_items_float[OF float])
next
  case iso
  have "\<exists>e'. sorted_by (py_int L) d = Inl e'"
    using assms by (rule sorted_by_fails_parse) (simp only: iso parse_error_iso)
  then show ?thesis by (simp only: iso sorted_items_iso)
next
  case date
  have "\<exists>e'. sorted_by (py_fromisoformat L) d = Inl e'"
    using assms by (rule sorted_by_fails_parse) (simp only: date parse_error_date)
  then show ?thesis by (simp only: date sorted_items_date)
next
  case other
  from assms(2) show ?thesis by (simp add: parse_error_other[OF other])
qed

lemma sorted_items_succeeds:
  assumes "\<forall>v \<in> fst ` set d. parse_error L k v = None"
  shows "\<exists>items. sorted_items L k d = Inr items"
proof (cases "sorted_items L k d")
  case (Inl e)
  from sorted_items_Inl[OF this] assms show ?thesis by auto
qed blast

lemma sorted_items_mset:
  assumes "sorted_items L k d = Inr items"
  shows "mset items = mset d"
proof (cases k rule: field_cases)
  case exposure
  with assms show ?thesis by (simp only: sorted_items_exposure sorted_by_Inr(1))
next
  case float
  with assms show ?thesis by (simp only: sorted_items_float sorted_by_Inr(1))
next
  case iso
  with assms show ?thesis by (simp only: sorted_items_iso sorted_by_Inr(1))
next
  case date
  with assms show ?thesis by (simp only: sorted_items_date sorted_by_Inr(1))
next
  case other
  from assms have "items = sort_key fst d" by (simp add: sorted_items_other[OF other])
  then show ?thesis by simp
qed

subsection \<open>One chart\<close>

lemma fraction_labels_succeeds:
  "\<forall>v \<in> set vs. \<exists>r. py_Fraction L v = Inr r \<Longrightarrow> \<exists>ls. fraction_labels L vs = Inr ls"
proof (induction vs)
  case (Cons v vs)
  then obtain r ls where r: "py_Fraction L v = Inr r" and ls: "fraction_labels L vs = Inr ls"
    by auto
  from limit_denominator_ok[of r] obtain r' where "limit_denominator r = Inr r'" by blast
  with r ls show ?case by simp
qed simp


lemma sorted_by_Nil: "sorted_by f [] = Inr []"
  by (simp add: sorted_by_def)

lemma sorted_items_Nil: "sorted_items L k [] = Inr []"
  by (cases k rule: field_cases)
    (simp_all add: sorted_items_exposure sorted_items_float sorted_items_iso sorted_items_date
      sorted_items_other sorted_by_Nil)

lemma plot_field_Nil: "plot_field L k [] = Inl ValueError"
  by (simp add: plot_field_def sorted_items_Nil)



lemma plot_field_fails:
  assumes "v \<in> fst ` set d" "parse_error L k v = Some e"
  shows "\<exists>e' v'. v' \<in> fst ` set d \<and> parse_error L k v' = Some e' \<and> plot_field L k d = Inl e'"
proof -
  from sorted_items_fails[OF assms] obtain e' where e': "sorted_items L k d = Inl e'" by blast
  from sorted_items_Inl[OF e'] obtain v' where "v' \<in> fst ` set d" "parse_error L k v' = Some e'"
    by blast
  moreover have "plot_field L k d = Inl e'" by (simp add: plot_field_def e')
  ultimately show ?thesis by blast
qed

lemma plot_field_succeeds:
  assumes ne: "d \<noteq> []" and ok: "\<forall>v \<in> fst ` set d. parse_error L k v = None"
  shows "\<exists>c. plot_field L k d = Inr c \<and> title c = k"
proof -
  from sorted_items_succeeds[OF ok] obtain items where i: "sorted_items L k d = Inr items"
    by blast
  from sorted_items_mset[OF i] have ms: "mset items = mset d" .
  with ne have ine: "items \<noteq> []" by auto
  from ms have st: "set items = set d" by (rule mset_eq_setD)
  show ?thesis
  proof (cases "k = ''ExposureTime''")
    case True
    have "\<forall>v \<in> set (map fst items). \<exists>r. py_Fraction L v = Inr r"
    proof
      fix v assume "v \<in> set (map fst items)"
      with st have vd: "v \<in> fst ` set d" by simp
      from ok vd have "parse_error L k v = None" by (rule bspec)
      then show "\<exists>r. py_Fraction L v = Inr r"
        unfolding True parse_error_exposure by (cases "py_Fraction L v") simp_all
    qed
    from fraction_labels_succeeds[OF this] obtain ls
      where "fraction_labels L (map fst items) = Inr ls" by blast
    with i ine True show ?thesis by (simp add: plot_field_def)
  next
    case False
    with i ine show ?thesis by (simp add: plot_field_def)
  qed
qed

subsection \<open>The loop over the fields\<close>

lemma plot_statistic_dict_prefix:
  "list_all2 (\<lambda>(k, d) c. plot_field L k d = Inr c) pre cs \<Longrightarrow>
   plot_statistic_dict L (pre @ rest)
     = (cs @ fst (plot_statistic_dict L rest), snd (plot_statistic_dict L rest))"
proof (induction pre cs rule: list_all2_induct)
  case (Cons x xs c cs)
  then show ?case by (cases x) (simp add: case_prod_beta)
qed simp

lemma plot_statistic_dict_raises:
  "i < length t \<Longrightarrow> t ! i = (k, d) \<Longrightarrow> plot_field L k d = Inl e \<Longrightarrow>
   \<exists>cs e'. plot_statistic_dict L t = (cs, Some e') \<and> length cs \<le> i"
proof (induction t arbitrary: i)
  case (Cons x t)
  obtain k0 d0 where x: "x = (k0, d0)" by (cases x)
  show ?case
  proof (cases "plot_field L k0 d0")
    case (Inl e0)
    then show ?thesis by (simp add: x)
  next
    case (Inr c0)
    with Cons.prems x obtain j where j: "i = Suc j" by (cases i) auto
    with Cons.prems have "j < length t" "t ! j = (k, d)" by simp_all
    from Cons.IH[OF this Cons.prems(3)] obtain cs e'
      where "plot_statistic_dict L t = (cs, Some e')" "length cs \<le> j" by blast
    then show ?thesis by (simp add: x Inr j)
  qed
qed simp

lemma plot_statistic_dict_all:
  "list_all2 (\<lambda>(k, d) c. plot_field L k d = Inr c) t cs \<Longrightarrow>
   plot_statistic_dict L t = (cs, None)"
  using plot_statistic_dict_prefix[of L t cs "[]"] by simp

subsection \<open>Order of the charts\<close>






subsection \<open>The exposure chart\<close>






subsection \<open>Rendering as a whole\<close>

lemma plot_statistic_dict_stops:
  assumes pre: "list_all2 (\<lambda>(k, d) c. plot_field L k d = Inr c) pre cs"
    and f: "plot_field L k d = Inl e"
  shows "plot_statistic_dict L (pre @ (k, d) # post) = (cs, Some e)"
  using plot_statistic_dict_prefix[OF pre, of "(k, d) # post"] f by simp

text \<open>
  C10. If the field at position \<open>i\<close> of the table stores a value that its sort key cannot
  parse, \<^verbatim>\<open>plot_statistic_dict\<close> ends with an exception and has drawn at most the \<open>i\<close>
  charts of the fields before it: neither the chart of that field nor any later one is
  drawn. When the fields before it all render, it has drawn exactly their charts and the
  exception is the one raised by the parse of a value of that field. Nothing is skipped.
\<close>

theorem parse_failure_aborts_rendering:
  "i < length t \<Longrightarrow> t ! i = (k, d) \<Longrightarrow> v \<in> fst ` set d \<Longrightarrow> parse_error L k v = Some e \<Longrightarrow>
     (\<exists>cs e'. plot_statistic_dict L t = (cs, Some e') \<and> length cs \<le> i)
   \<and> (list_all2 (\<lambda>(k', d') c. plot_field L k' d' = Inr c) (take i t) cs \<longrightarrow>
        (\<exists>e' v'. v' \<in> fst ` set d \<and> parse_error L k v' = Some e'
           \<and> plot_statistic_dict L t = (cs, Some e')))"
proof -
  assume i: "i < length t" and ti: "t ! i = (k, d)" and v: "v \<in> fst ` set d"
    and pe: "parse_error L k v = Some e"
  from plot_field_fails[OF v pe] obtain e' v' where v': "v' \<in> fst ` set d"
    and pe': "parse_error L k v' = Some e'" and pf: "plot_field L k d = Inl e'" by blast
  from plot_statistic_dict_raises[OF i ti pf]
  have a: "\<exists>cs e'. plot_statistic_dict L t = (cs, Some e') \<and> length cs \<le> i" .
  have t: "t = take i t @ (k, d) # drop (Suc i) t"
    using id_take_nth_drop[OF i] ti by simp
  have b: "\<exists>e' v'. v' \<in> fst ` set d \<and> parse_error L k v' = Some e'
           \<and> plot_statistic_dict L t = (cs, Some e')"
    if pre: "list_all2 (\<lambda>(k', d') c. plot_field L k' d' = Inr c) (take i t) cs"
  proof -
    from plot_statistic_dict_stops[OF pre pf, of "drop (Suc i) t"] t
    have "plot_statistic_dict L t = (cs, Some e')" by simp
    with v' pe' show ?thesis by blast
  qed
  from a b show ?thesis by blast
qed

theorem parse_failure_aborts_rendering_witness:
  "(5::nat) < length
      [(''DateTimeOriginal'', [(''2023-05-01'', 1)]), (''Model'', [(''X100'', 1)]),
       (''LensModel'', [(''23mm'', 1)]), (''FNumber'', [(''2.8'', 1)]),
       (''ExposureTime'', [(''0.005'', 1)]), (''ISOSpeedRatings'', [(''(100, 100)'', 1)]),
       (''FocalLength'', [(''23.0'', 1)])]
   \<and> ''(100, 100)'' \<in> fst ` set [(''(100, 100)'', 1::int)]
   \<and> parse_error ref_lib ''ISOSpeedRatings'' ''(100, 100)'' = Some ValueError
   \<and> plot_statistic_dict ref_lib
      [(''DateTimeOriginal'', [(''2023-05-01'', 1)]), (''Model'', [(''X100'', 1)]),
       (''LensModel'', [(''23mm'', 1)]), (''FNumber'', [(''2.8'', 1)]),
       (''ExposureTime'', [(''0.005'', 1)]), (''ISOSpeedRatings'', [(''(100, 100)'', 1)]),
       (''FocalLength'', [(''23.0'', 1)])]
     = ([\<lparr>title = ''DateTimeOriginal'', labels = [''2023-05-01''], bars = [1]\<rparr>,
         \<lparr>title = ''Model'', labels = [''X100''], bars = [1]\<rparr>,
         \<lparr>title = ''LensModel'', labels = [''23mm''], bars = [1]\<rparr>,
         \<lparr>title = ''FNumber'', labels = [''2.8''], bars = [1]\<rparr>,
         \<lparr>title = ''ExposureTime'', labels = [''1/200''], bars = [1]\<rparr>],
        Some ValueError)"
proof -
  let ?t = "[(''DateTimeOriginal'', [(''2023-05-01'', 1)]), (''Model'', [(''X100'', 1)]),
       (''LensModel'', [(''23mm'', 1)]), (''FNumber'', [(''2.8'', 1)]),
       (''ExposureTime'', [(''0.005'', 1)]), (''ISOSpeedRatings'', [(''(100, 100)'', 1)]),
       (''FocalLength'', [(''23.0'', 1)])]"
  let ?cs = "[\<lparr>title = ''DateTimeOriginal'', labels = [''2023-05-01''], bars = [1]\<rparr>,
         \<lparr>title = ''Model'', labels = [''X100''], bars = [1]\<rparr>,
         \<lparr>title = ''LensModel'', labels = [''23mm''], bars = [1]\<rparr>,
         \<lparr>title = ''FNumber'', labels = [''2.8''], bars = [1]\<rparr>,
         \<lparr>title = ''ExposureTime'', labels = [''1/200''], bars = [1]\<rparr>]"
  have h1: "(5::nat) < length ?t" by simp
  have h2: "?t ! 5 = (''ISOSpeedRatings'', [(''(100, 100)'', 1)])" by simp
  have h3: "''(100, 100)'' \<in> fst ` set [(''(100, 100)'', 1::int)]" by simp
  have h4: "parse_error ref_lib ''ISOSpeedRatings'' ''(100, 100)'' = Some ValueError"
    by code_simp
  have p1: "plot_field ref_lib ''DateTimeOriginal'' [(''2023-05-01'', 1)] = Inr (?cs ! 0)"
    by code_simp
  have p2: "plot_field ref_lib ''Model'' [(''X100'', 1)] = Inr (?cs ! 1)" by code_simp
  have p3: "plot_field ref_lib ''LensModel'' [(''23mm'', 1)] = Inr (?cs ! 2)" by code_simp
  have p4: "plot_field ref_lib ''FNumber'' [(''2.8'', 1)] = Inr (?cs ! 3)" by code_simp
  have p5: "plot_field ref_lib ''ExposureTime'' [(''0.005'', 1)] = Inr (?cs ! 4)" by code_simp
  have h5: "list_all2 (\<lambda>(k', d') c. plot_field ref_lib k' d' = Inr c) (take 5 ?t) ?cs"
    using p1 p2 p3 p4 p5 by simp
  from parse_failure_aborts_rendering[OF h1 h2 h3 h4, of ?cs] h5
  obtain e' v' where "v' \<in> fst ` set [(''(100, 100)'', 1::int)]"
    "parse_error ref_lib ''ISOSpeedRatings'' v' = Some e'"
    "plot_statistic_dict ref_lib ?t = (?cs, Some e')" by blast
  with h4 have "plot_statistic_dict ref_lib ?t = (?cs, Some ValueError)" by simp
  with h1 h3 h4 show ?thesis by (intro conjI)
qed

subsection \<open>The gate of \<^verbatim>\<open>cli\<close>\<close>

lemma get_statistic_dict_keys:
  assumes "get_statistic_dict files = Inr (Dict t)"
  shows "map fst t = STATISTIC_KEYS"
proof -
  obtain rs sd where rp: "run_pool (map fst files) init_dict = (rs, sd)"
    by (cases "run_pool (map fst files) init_dict")
  have "set STATISTIC_KEYS \<subseteq> fst ` set init_dict" by (simp add: init_dict_keys')
  from run_pool_results[OF this, of "map fst files"] rp
  have "map fst sd = STATISTIC_KEYS" by (simp add: init_dict_keys)
  moreover from assms rp have "t = sd"
    by (auto simp add: get_statistic_dict_def split: sum.splits bool.splits)
  ultimately show ?thesis by simp
qed

lemma charts_exist:
  "\<forall>(k, d) \<in> set t. \<exists>c. plot_field L k d = Inr c \<and> title c = k \<Longrightarrow>
   \<exists>cs. list_all2 (\<lambda>(k, d) c. plot_field L k d = Inr c) t cs \<and> map title cs = map fst t"
proof (induction t)
  case (Cons x t)
  obtain k d where x: "x = (k, d)" by (cases x)
  from Cons.prems x obtain c where c: "plot_field L k d = Inr c" "title c = k" by auto
  from Cons.prems have "\<forall>(k, d) \<in> set t. \<exists>c. plot_field L k d = Inr c \<and> title c = k" by simp
  from Cons.IH[OF this] obtain cs
    where cs: "list_all2 (\<lambda>(k, d) c. plot_field L k d = Inr c) t cs" "map title cs = map fst t"
    by blast
  have "list_all2 (\<lambda>(k, d) c. plot_field L k d = Inr c) (x # t) (c # cs)
      \<and> map title (c # cs) = map fst (x # t)"
    using c cs by (simp add: x)
  then show ?case by blast
qed simp

text \<open>
  C7, as the code has it. For a finished table: when the \<^verbatim>\<open>DateTimeOriginal\<close> field has no
  entry, \<^verbatim>\<open>cli\<close> draws no chart and ends without an exception; when it has an entry,
  \<^verbatim>\<open>cli\<close> runs the renderer on the table. The renderer draws one chart per tracked field,
  in the order of \<^verbatim>\<open>STATISTIC_KEYS\<close>, when every field has an entry and every stored value
  can be parsed by its field's sort key.
\<close>

theorem rendering_gate:
  "get_statistic_dict files = Inr (Dict t) \<Longrightarrow>
     (\<exists>d. map_of t ''DateTimeOriginal'' = Some d
        \<and> (d = [] \<longrightarrow> cli L files = ([], None))
        \<and> (d \<noteq> [] \<longrightarrow> cli L files = plot_statistic_dict L t))
   \<and> ((\<forall>(k, d) \<in> set t. d \<noteq> [] \<and> (\<forall>v \<in> fst ` set d. parse_error L k v = None)) \<longrightarrow>
        (\<exists>cs. cli L files = (cs, None) \<and> map title cs = STATISTIC_KEYS))"
proof -
  assume g: "get_statistic_dict files = Inr (Dict t)"
  from get_statistic_dict_keys[OF g] have keys: "map fst t = STATISTIC_KEYS" .
  have "''DateTimeOriginal'' \<in> set (map fst t)" by (simp add: keys STATISTIC_KEYS_def)
  then have "''DateTimeOriginal'' \<in> fst ` set t" by simp
  then obtain d0 where d0: "map_of t ''DateTimeOriginal'' = Some d0"
    by (metis map_of_eq_None_iff not_Some_eq)
  have e: "cli L files = ([], None)" if "d0 = []"
    using that by (simp add: cli_def g d0)
  have n: "cli L files = plot_statistic_dict L t" if "d0 \<noteq> []"
    using that by (simp add: cli_def g d0)
  have a: "\<exists>cs. cli L files = (cs, None) \<and> map title cs = STATISTIC_KEYS"
    if ok: "\<forall>(k, d) \<in> set t. d \<noteq> [] \<and> (\<forall>v \<in> fst ` set d. parse_error L k v = None)"
  proof -
    have "\<forall>(k, d) \<in> set t. \<exists>c. plot_field L k d = Inr c \<and> title c = k"
      using ok by (auto intro!: plot_field_succeeds)
    from charts_exist[OF this] obtain cs
      where cs: "list_all2 (\<lambda>(k, d) c. plot_field L k d = Inr c) t cs"
        and ti: "map title cs = map fst t" by blast
    from d0 have "(''DateTimeOriginal'', d0) \<in> set t" by (rule map_of_SomeD)
    with ok have "d0 \<noteq> []" by auto
    from n[OF this] plot_statistic_dict_all[OF cs] ti keys show ?thesis by simp
  qed
  from d0 e n a show ?thesis by blast
qed


theorem rendering_gate_witness:
  "get_statistic_dict [(Exif [(''DateTimeOriginal'', ''2023:05:01 12:30:00''), (''Model'', ''X100''),
          (''LensModel'', ''23mm''), (''FNumber'', ''2.8''), (''ExposureTime'', ''0.005''),
          (''ISOSpeedRatings'', ''200''), (''FocalLength'', ''23.0'')], InTime)] = Inr (Dict [(''DateTimeOriginal'', [(''2023-05-01'', 1::int)]), (''Model'', [(''X100'', 1)]),
       (''LensModel'', [(''23mm'', 1)]), (''FNumber'', [(''2.8'', 1)]),
       (''ExposureTime'', [(''0.005'', 1)]), (''ISOSpeedRatings'', [(''200'', 1)]),
       (''FocalLength'', [(''23.0'', 1)])])
   \<and> list_all (\<lambda>(k, d). d \<noteq> [] \<and> (\<forall>v \<in> fst ` set d. parse_error ref_lib k v = None))
        [(''DateTimeOriginal'', [(''2023-05-01'', 1::int)]), (''Model'', [(''X100'', 1)]),
         (''LensModel'', [(''23mm'', 1)]), (''FNumber'', [(''2.8'', 1)]),
         (''ExposureTime'', [(''0.005'', 1)]), (''ISOSpeedRatings'', [(''200'', 1)]),
         (''FocalLength'', [(''23.0'', 1)])]
   \<and> (\<exists>cs. cli ref_lib [(Exif [(''DateTimeOriginal'', ''2023:05:01 12:30:00''), (''Model'', ''X100''),
          (''LensModel'', ''23mm''), (''FNumber'', ''2.8''), (''ExposureTime'', ''0.005''),
          (''ISOSpeedRatings'', ''200''), (''FocalLength'', ''23.0'')], InTime)] = (cs, None)
          \<and> map title cs = STATISTIC_KEYS)
   \<and> get_statistic_dict [(NoExif, InTime)] = Inr (Dict [(''DateTimeOriginal'', []::counts), (''Model'', []), (''LensModel'', []), (''FNumber'', []),
       (''ExposureTime'', []), (''ISOSpeedRatings'', []), (''FocalLength'', [])])
   \<and> cli ref_lib [(NoExif, InTime)] = ([], None)"
proof -
  let ?f = "[(Exif [(''DateTimeOriginal'', ''2023:05:01 12:30:00''), (''Model'', ''X100''),
          (''LensModel'', ''23mm''), (''FNumber'', ''2.8''), (''ExposureTime'', ''0.005''),
          (''ISOSpeedRatings'', ''200''), (''FocalLength'', ''23.0'')], InTime)]"
  let ?t = "[(''DateTimeOriginal'', [(''2023-05-01'', 1::int)]), (''Model'', [(''X100'', 1)]),
       (''LensModel'', [(''23mm'', 1)]), (''FNumber'', [(''2.8'', 1)]),
       (''ExposureTime'', [(''0.005'', 1)]), (''ISOSpeedRatings'', [(''200'', 1)]),
       (''FocalLength'', [(''23.0'', 1)])]"
  let ?z = "[(''DateTimeOriginal'', []::counts), (''Model'', []), (''LensModel'', []), (''FNumber'', []),
       (''ExposureTime'', []), (''ISOSpeedRatings'', []), (''FocalLength'', [])]"
  have g: "get_statistic_dict ?f = Inr (Dict ?t)" by code_simp
  have p: "parse_error ref_lib ''DateTimeOriginal'' ''2023-05-01'' = None"
    "parse_error ref_lib ''Model'' ''X100'' = None"
    "parse_error ref_lib ''LensModel'' ''23mm'' = None"
    "parse_error ref_lib ''FNumber'' ''2.8'' = None"
    "parse_error ref_lib ''ExposureTime'' ''0.005'' = None"
    "parse_error ref_lib ''ISOSpeedRatings'' ''200'' = None"
    "parse_error ref_lib ''FocalLength'' ''23.0'' = None"
    by code_simp+
  have h: "\<forall>(k, d) \<in> set ?t. d \<noteq> [] \<and> (\<forall>v \<in> fst ` set d. parse_error ref_lib k v = None)"
    using p by simp
  from rendering_gate[OF g, of ref_lib] h
  have c: "\<exists>cs. cli ref_lib ?f = (cs, None) \<and> map title cs = STATISTIC_KEYS" by blast
  have g0: "get_statistic_dict [(NoExif, InTime)] = Inr (Dict ?z)" by code_simp
  have m0: "map_of ?z ''DateTimeOriginal'' = Some []" by simp
  from rendering_gate[OF g0, of ref_lib] m0
  have c0: "cli ref_lib [(NoExif, InTime)] = ([], None)" by auto
  have h': "list_all (\<lambda>(k, d). d \<noteq> [] \<and> (\<forall>v \<in> fst ` set d. parse_error ref_lib k v = None)) ?t"
    using p by simp
  from g h' c g0 c0 show ?thesis by (intro conjI)
qed

text \<open>C7 as the specification states it fails: here the \<^verbatim>\<open>DateTimeOriginal\<close> field has an
  entry, yet only five charts are drawn, because \<^verbatim>\<open>int\<close> refuses the stored ISO value.\<close>

theorem dated_table_without_all_charts:
  "get_statistic_dict [(Exif [(''DateTimeOriginal'', ''2023:05:01 12:30:00''), (''Model'', ''X100''),
          (''LensModel'', ''23mm''), (''FNumber'', ''2.8''), (''ExposureTime'', ''0.005''),
          (''ISOSpeedRatings'', ''(100, 100)''), (''FocalLength'', ''23.0'')], InTime)] = Inr (Dict [(''DateTimeOriginal'', [(''2023-05-01'', 1::int)]), (''Model'', [(''X100'', 1)]),
       (''LensModel'', [(''23mm'', 1)]), (''FNumber'', [(''2.8'', 1)]),
       (''ExposureTime'', [(''0.005'', 1)]), (''ISOSpeedRatings'', [(''(100, 100)'', 1)]),
       (''FocalLength'', [(''23.0'', 1)])])
   \<and> map_of [(''DateTimeOriginal'', [(''2023-05-01'', 1::int)]), (''Model'', [(''X100'', 1)]),
       (''LensModel'', [(''23mm'', 1)]), (''FNumber'', [(''2.8'', 1)]),
       (''ExposureTime'', [(''0.005'', 1)]), (''ISOSpeedRatings'', [(''(100, 100)'', 1)]),
       (''FocalLength'', [(''23.0'', 1)])] ''DateTimeOriginal'' = Some [(''2023-05-01'', 1)]
   \<and> cli ref_lib [(Exif [(''DateTimeOriginal'', ''2023:05:01 12:30:00''), (''Model'', ''X100''),
          (''LensModel'', ''23mm''), (''FNumber'', ''2.8''), (''ExposureTime'', ''0.005''),
          (''ISOSpeedRatings'', ''(100, 100)''), (''FocalLength'', ''23.0'')], InTime)]
     = ([\<lparr>title = ''DateTimeOriginal'', labels = [''2023-05-01''], bars = [1]\<rparr>,
         \<lparr>title = ''Model'', labels = [''X100''], bars = [1]\<rparr>,
         \<lparr>title = ''LensModel'', labels = [''23mm''], bars = [1]\<rparr>,
         \<lparr>title = ''FNumber'', labels = [''2.8''], bars = [1]\<rparr>,
         \<lparr>title = ''ExposureTime'', labels = [''1/200''], bars = [1]\<rparr>],
        Some ValueError)"
proof -
  have 1: "get_statistic_dict [(Exif [(''DateTimeOriginal'', ''2023:05:01 12:30:00''), (''Model'', ''X100''),
          (''LensModel'', ''23mm''), (''FNumber'', ''2.8''), (''ExposureTime'', ''0.005''),
          (''ISOSpeedRatings'', ''(100, 100)''), (''FocalLength'', ''23.0'')], InTime)] = Inr (Dict [(''DateTimeOriginal'', [(''2023-05-01'', 1::int)]), (''Model'', [(''X100'', 1)]),
       (''LensModel'', [(''23mm'', 1)]), (''FNumber'', [(''2.8'', 1)]),
       (''ExposureTime'', [(''0.005'', 1)]), (''ISOSpeedRatings'', [(''(100, 100)'', 1)]),
       (''FocalLength'', [(''23.0'', 1)])])" by code_simp
  have 2: "map_of [(''DateTimeOriginal'', [(''2023-05-01'', 1::int)]), (''Model'', [(''X100'', 1)]),
       (''LensModel'', [(''23mm'', 1)]), (''FNumber'', [(''2.8'', 1)]),
       (''ExposureTime'', [(''0.005'', 1)]), (''ISOSpeedRatings'', [(''(100, 100)'', 1)]),
       (''FocalLength'', [(''23.0'', 1)])] ''DateTimeOriginal'' = Some [(''2023-05-01'', 1)]" by simp
  have 3: "cli ref_lib [(Exif [(''DateTimeOriginal'', ''2023:05:01 12:30:00''), (''Model'', ''X100''),
          (''LensModel'', ''23mm''), (''FNumber'', ''2.8''), (''ExposureTime'', ''0.005''),
          (''ISOSpeedRatings'', ''(100, 100)''), (''FocalLength'', ''23.0'')], InTime)]
     = ([\<lparr>title = ''DateTimeOriginal'', labels = [''2023-05-01''], bars = [1]\<rparr>,
         \<lparr>title = ''Model'', labels = [''X100''], bars = [1]\<rparr>,
         \<lparr>title = ''LensModel'', labels = [''23mm''], bars = [1]\<rparr>,
         \<lparr>title = ''FNumber'', labels = [''2.8''], bars = [1]\<rparr>,
         \<lparr>title = ''ExposureTime'', labels = [''1/200''], bars = [1]\<rparr>],
        Some ValueError)" by code_simp
  from 1 2 3 show ?thesis by (intro conjI)
qed

subsection \<open>The pool as a sequence of increments\<close>

lemma apply_increments_append:
  "apply_increments (xs @ ys) t =
     (case apply_increments xs t of Inl e \<Rightarrow> Inl e | Inr t' \<Rightarrow> apply_increments ys t')"
proof (induction xs arbitrary: t)
  case (Cons a xs)
  then show ?case by (cases a) (simp split: sum.splits)
qed simp

lemma count_keys_increments:
  "set keys \<subseteq> fst ` set t \<Longrightarrow>
   apply_increments
     (List.map_filter (\<lambda>key. map_option (Pair key) (stored (Exif e) key))
        (takeWhile (\<lambda>key. carries key (Exif e)) keys)) t
   = Inr (snd (count_keys keys e t))"
proof (induction keys arbitrary: t)
  case (Cons key keys)
  show ?case
  proof (cases "map_of e key")
    case None
    then show ?thesis by (simp add: carries_def map_filter_simps)
  next
    case (Some raw)
    from Cons.prems have "map_of t key \<noteq> None" by (simp add: map_of_eq_None_iff)
    then obtain t1 where t1: "increment key (field_value key raw) t = Inr t1"
      by (auto simp add: increment_Some)
    have "fst ` set t1 = fst ` set t" using increment_keys[OF t1] by (metis set_map)
    with Cons.prems have "set keys \<subseteq> fst ` set t1" by simp
    from Cons.IH[OF this] show ?thesis
      by (simp add: Some t1 carries_def stored_def map_filter_simps)
  qed
qed (simp add: map_filter_simps)

lemma make_statistic_increments:
  assumes "set STATISTIC_KEYS \<subseteq> fst ` set t"
  shows "apply_increments (increments_of f) t = Inr (snd (make_statistic f t))"
proof (cases f)
  case (Exif e)
  with count_keys_increments[OF assms, of e] show ?thesis
    by (simp add: increments_of_def counted_keys_def)
qed (simp_all add: increments_of_def counted_keys_def carries_def STATISTIC_KEYS_def
    map_filter_simps)

lemma run_pool_increments:
  "set STATISTIC_KEYS \<subseteq> fst ` set t \<Longrightarrow>
   apply_increments (concat (map increments_of files)) t = Inr (snd (run_pool files t))"
proof (induction files arbitrary: t)
  case (Cons f files)
  obtain r t1 where m: "make_statistic f t = (r, t1)" by (cases "make_statistic f t")
  from make_statistic_increments[OF Cons.prems, of f] m
  have a: "apply_increments (increments_of f) t = Inr t1" by simp
  from make_statistic_ok(2)[OF Cons.prems, of f] m have "map fst t1 = map fst t" by simp
  then have "fst ` set t1 = fst ` set t" by (metis set_map)
  with Cons.prems have "set STATISTIC_KEYS \<subseteq> fst ` set t1" by simp
  from Cons.IH[OF this] show ?case
    by (simp add: apply_increments_append a m split: prod.splits)
qed simp

lemma count_list_map_filter:
  "distinct ks \<Longrightarrow>
   count_list (List.map_filter (\<lambda>key. map_option (Pair key) (g key)) ks) (k, v)
     = (if k \<in> set ks \<and> g k = Some v then 1 else 0)"
proof (induction ks)
  case (Cons a ks)
  then show ?case by (cases "g a") (auto simp add: map_filter_simps)
qed (simp add: map_filter_simps)

lemma distinct_counted_keys: "distinct (counted_keys f)"
  unfolding counted_keys_def by (rule distinct_takeWhile) (rule distinct_STATISTIC_KEYS)

lemma count_list_increments_of:
  "count_list (increments_of f) (k, v)
     = (if k \<in> set (counted_keys f) \<and> stored f k = Some v then 1 else 0)"
  unfolding increments_of_def by (rule count_list_map_filter) (rule distinct_counted_keys)

lemma count_list_concat:
  "count_list (concat (map h fs)) x = length (filter (\<lambda>f. P f) fs)"
  if "\<And>f. count_list (h f) x = (if P f then 1 else 0)"
  using that by (induction fs) (simp_all add: count_list_append)

lemma run_pool_entry:
  "entry (snd (run_pool files init_dict)) k v =
     tally (length (filter (\<lambda>f. k \<in> set (counted_keys f) \<and> stored f k = Some v) files))"
proof -
  let ?xs = "concat (map increments_of files)"
  let ?P = "\<lambda>f. k \<in> set (counted_keys f) \<and> stored f k = Some v"
  have "set STATISTIC_KEYS \<subseteq> fst ` set init_dict" by (simp add: init_dict_keys')
  from run_pool_increments[OF this]
  have a: "apply_increments ?xs init_dict = Inr (snd (run_pool files init_dict))" .
  have c: "count_list ?xs (k, v) = length (filter ?P files)"
    by (rule count_list_concat) (rule count_list_increments_of)
  from apply_increments_entry[OF a, of k v] show ?thesis
    by (simp add: c init_dict_entry count_of_def tally_def)
qed


subsection \<open>Every schedule gives the same counts\<close>

lemma counted_keys_no_exif: "\<forall>e. f \<noteq> Exif e \<Longrightarrow> counted_keys f = []"
  by (cases f) (simp_all add: counted_keys_def carries_def STATISTIC_KEYS_def)

lemma counted_keys_le: "length (counted_keys f) \<le> length STATISTIC_KEYS"
  unfolding counted_keys_def by (rule length_takeWhile_le)

lemma counted_keys_carried:
  assumes "j < length (counted_keys f)" shows "carries (STATISTIC_KEYS ! j) f"
proof -
  from assms have "counted_keys f ! j \<in> set (counted_keys f)" by simp
  then have "carries (counted_keys f ! j) f"
    unfolding counted_keys_def by (blast dest: set_takeWhileD)
  moreover have "counted_keys f ! j = STATISTIC_KEYS ! j"
    using assms unfolding counted_keys_def by (rule takeWhile_nth)
  ultimately show ?thesis by simp
qed

lemma counted_keys_stop:
  assumes "n \<le> length (counted_keys f)" "n < length STATISTIC_KEYS"
    "\<not> carries (STATISTIC_KEYS ! n) f"
  shows "n = length (counted_keys f)"
proof (rule ccontr)
  assume "n \<noteq> length (counted_keys f)"
  with assms(1) have "n < length (counted_keys f)" by simp
  from counted_keys_carried[OF this] assms(3) show False by simp
qed

lemma counted_keys_advance:
  assumes "n \<le> length (counted_keys f)" "n < length STATISTIC_KEYS"
    "carries (STATISTIC_KEYS ! n) f"
  shows "n + 1 \<le> length (counted_keys f)"
  unfolding counted_keys_def
proof (rule length_takeWhile_less_P_nth)
  fix i assume "i < n + 1"
  then consider "i < n" | "i = n" by linarith
  then show "carries (STATISTIC_KEYS ! i) f"
  proof cases
    case 1
    with assms(1) have "i < length (counted_keys f)" by simp
    then show ?thesis by (rule counted_keys_carried)
  next
    case 2
    with assms(3) show ?thesis by simp
  qed
next
  from assms(2) show "n + 1 \<le> length STATISTIC_KEYS" by simp
qed

lemma filter_length_same:
  "i < length ws \<Longrightarrow> P w' = P (ws ! i) \<Longrightarrow>
   length (filter P (ws[i := w'])) = length (filter P ws)"
  using filter_length_update[of i ws P w'] by simp

lemma filter_length_more:
  "i < length ws \<Longrightarrow> P w' \<Longrightarrow> \<not> P (ws ! i) \<Longrightarrow>
   length (filter P (ws[i := w'])) = length (filter P ws) + 1"
  using filter_length_update[of i ws P w'] by simp

lemma worker_step_returns:
  assumes st: "worker_step w t = Some (w', t')"
    and keys: "set STATISTIC_KEYS \<subseteq> fst ` set t"
    and le: "pc w \<le> length (counted_keys (img w))"
  shows "(w' = w\<lparr>returned := True\<rparr> \<and> t' = t \<and> pc w = length (counted_keys (img w)))
       \<or> (\<exists>e raw. img w = Exif e \<and> pc w < length STATISTIC_KEYS \<and> \<not> returned w
            \<and> map_of e (STATISTIC_KEYS ! pc w) = Some raw
            \<and> increment (STATISTIC_KEYS ! pc w) (field_value (STATISTIC_KEYS ! pc w) raw) t = Inr t'
            \<and> w' = w\<lparr>pc := pc w + 1\<rparr>)"
proof -
  from st have nr: "\<not> returned w" by (auto simp add: worker_step_def split: if_splits)
  show ?thesis
  proof (cases "img w")
    case Unreadable
    then have "counted_keys (img w) = []" by (simp add: counted_keys_no_exif)
    with le st nr Unreadable show ?thesis by (simp add: worker_step_def)
  next
    case NoExif
    then have "counted_keys (img w) = []" by (simp add: counted_keys_no_exif)
    with le st nr NoExif show ?thesis by (simp add: worker_step_def)
  next
    case (Exif e)
    show ?thesis
    proof (cases "length STATISTIC_KEYS \<le> pc w")
      case True
      with le counted_keys_le[of "img w"] have "pc w = length (counted_keys (img w))" by simp
      with st nr Exif True show ?thesis by (simp add: worker_step_def)
    next
      case False
      then have lt: "pc w < length STATISTIC_KEYS" by simp
      let ?k = "STATISTIC_KEYS ! pc w"
      show ?thesis
      proof (cases "map_of e ?k")
        case None
        then have "\<not> carries ?k (img w)" by (simp add: carries_def Exif)
        from counted_keys_stop[OF le lt this] st nr Exif False None
        show ?thesis by (simp add: worker_step_def)
      next
        case (Some raw)
        from lt keys have "?k \<in> fst ` set t" by (meson nth_mem subsetD)
        then have "map_of t ?k \<noteq> None" by (simp add: map_of_eq_None_iff)
        then obtain t1 where t1: "increment ?k (field_value ?k raw) t = Inr t1"
          by (auto simp add: increment_Some)
        with st nr Exif False Some lt show ?thesis by (simp add: worker_step_def)
      qed
    qed
  qed
qed

subsection \<open>The invariant of the pool\<close>

lemma pool_inv_init: "pool_inv (map start files, init_dict)"
proof -
  have "\<not> counted key w" if "w \<in> set (map start files)" for key w
    using that by (auto simp add: counted_def start_def)
  then have "filter (\<lambda>w. counted key w \<and> stored (img w) key = Some val) (map start files) = []"
    for key val by (simp add: filter_empty_conv)
  moreover have "pc w = 0 \<and> \<not> returned w" if "w \<in> set (map start files)" for w
    using that by (auto simp add: start_def)
  ultimately show ?thesis
    by (simp add: pool_inv_def init_dict_entry tally_def del: set_map)
qed

lemma pool_inv_step:
  assumes tinv: "table_inv files c" and inv: "pool_inv c" and st: "step c c'"
  shows "pool_inv c'"
  using st
proof (cases rule: step.cases)
  case (1 i ws t w' t')
  note c = \<open>c = (ws, t)\<close> and c' = \<open>c' = (ws[i := w'], t')\<close> and i = \<open>i < length ws\<close>
  let ?w = "ws ! i"
  let ?Q = "\<lambda>key val w. counted key w \<and> stored (img w) key = Some val"
  from i have wi: "?w \<in> set ws" by simp
  from tinv c have "map fst t = STATISTIC_KEYS" by (simp add: table_inv_def)
  then have keys: "set STATISTIC_KEYS \<subseteq> fst ` set t" by (metis set_map subset_refl)
  from inv c have prog: "\<And>w. w \<in> set ws \<Longrightarrow> pc w \<le> length (counted_keys (img w))
           \<and> (returned w \<longrightarrow> pc w = length (counted_keys (img w)))"
    and ent: "\<And>key val. entry t key val = tally (length (filter (?Q key val) ws))"
    by (auto simp add: pool_inv_def)
  from prog[OF wi] have le: "pc ?w \<le> length (counted_keys (img ?w))" by simp
  have others: "w = w' \<or> w \<in> set ws" if "w \<in> set (ws[i := w'])" for w
    using that set_update_subset_insert[of ws i w'] by auto
  from worker_step_returns[OF \<open>worker_step ?w t = Some (w', t')\<close> keys le]
  show ?thesis
  proof (elim disjE conjE exE)
    assume w': "w' = ?w\<lparr>returned := True\<rparr>" and t': "t' = t"
      and fin: "pc ?w = length (counted_keys (img ?w))"
    have a: "pc w \<le> length (counted_keys (img w))
           \<and> (returned w \<longrightarrow> pc w = length (counted_keys (img w)))"
      if "w \<in> set (ws[i := w'])" for w
      using others[OF that] prog fin by (auto simp add: w')
    have "?Q key val w' = ?Q key val ?w" for key val by (simp add: w')
    then have "length (filter (?Q key val) (ws[i := w'])) = length (filter (?Q key val) ws)"
      for key val using i by (intro filter_length_same)
    with ent have b: "entry t' key val = tally (length (filter (?Q key val) (ws[i := w'])))"
      for key val by (simp add: t')
    from a b show ?thesis unfolding c' pool_inv_def by simp
  next
    fix e raw
    let ?k = "STATISTIC_KEYS ! pc ?w"
    let ?v = "field_value ?k raw"
    assume im: "img ?w = Exif e" and lt: "pc ?w < length STATISTIC_KEYS"
      and nr: "\<not> returned ?w" and raw: "map_of e ?k = Some raw"
      and inc: "increment ?k ?v t = Inr t'" and w': "w' = ?w\<lparr>pc := pc ?w + 1\<rparr>"
    have car: "carries ?k (img ?w)" by (simp add: carries_def im raw)
    have sto: "stored (img ?w) ?k = Some ?v" by (simp add: stored_def im raw)
    have cnt: "counted key w' = (counted key ?w \<or> key = ?k)" for key
      unfolding w' using lt by (rule counted_advance)
    have nc: "\<not> counted ?k ?w" using lt by (rule not_counted_current)
    have img': "img w' = img ?w" by (simp add: w')
    from counted_keys_advance[OF le lt car]
    have "pc w' \<le> length (counted_keys (img w')) \<and> \<not> returned w'"
      using nr by (simp add: w')
    then have a: "pc w \<le> length (counted_keys (img w))
           \<and> (returned w \<longrightarrow> pc w = length (counted_keys (img w)))"
      if "w \<in> set (ws[i := w'])" for w
      using others[OF that] prog by auto
    have b: "entry t' key val = tally (length (filter (?Q key val) (ws[i := w'])))" for key val
    proof (cases "key = ?k \<and> val = ?v")
      case True
      have "?Q ?k ?v w'" by (simp add: cnt img' sto)
      moreover have "\<not> ?Q ?k ?v ?w" using nc by simp
      ultimately have "length (filter (?Q ?k ?v) (ws[i := w'])) = length (filter (?Q ?k ?v) ws) + 1"
        using i by (intro filter_length_more)
      moreover have "entry t' ?k ?v = Some (case entry t ?k ?v of None \<Rightarrow> 1 | Some c \<Rightarrow> c + 1)"
        by (simp add: increment_entry[OF inc])
      ultimately show ?thesis using True ent[of ?k ?v] by (simp add: tally_def)
    next
      case False
      have "?Q key val w' = ?Q key val ?w"
      proof (cases "key = ?k")
        case True
        with False have "val \<noteq> ?v" by simp
        with True nc show ?thesis by (simp add: cnt img' sto)
      next
        case False
        then show ?thesis by (simp add: cnt img')
      qed
      then have "length (filter (?Q key val) (ws[i := w'])) = length (filter (?Q key val) ws)"
        using i by (intro filter_length_same)
      moreover from False have "entry t' key val = entry t key val"
        by (auto simp add: increment_entry[OF inc])
      ultimately show ?thesis using ent[of key val] by simp
    qed
    from a b show ?thesis unfolding c' pool_inv_def by simp
  qed
qed

lemma reachable_pool_inv: "reachable files c \<Longrightarrow> pool_inv c"
proof -
  assume r: "reachable files c"
  have "table_inv files c \<and> pool_inv c"
    using r unfolding reachable_def
  proof (induction rule: rtranclp_induct)
    case base
    show ?case by (simp add: table_inv_init pool_inv_init)
  next
    case (step y z)
    then show ?case using table_inv_step pool_inv_step by blast
  qed
  then show ?thesis by simp
qed


text \<open>
  The dispatcher takes the files one after the other; the pool runs them side by side.
  The two agree: every run of the pool in which all workers have returned, whatever the
  interleaving of their steps, ends with a table that has the fields and the entries of
  the table of \<^const>\<open>run_pool\<close>.
\<close>

lemma complete_run_counts:
  assumes r: "reachable files (ws, t)" and fin: "list_all returned ws"
  shows "map fst t = map fst (snd (run_pool files init_dict))"
    and "entry t key val = entry (snd (run_pool files init_dict)) key val"
proof -
  from reachable_table_inv[OF r] have keys: "map fst t = STATISTIC_KEYS"
    and imgs: "map img ws = files" by (simp_all add: table_inv_def)
  have "set STATISTIC_KEYS \<subseteq> fst ` set init_dict" by (simp add: init_dict_keys')
  from run_pool_results[OF this, of files] keys
  show "map fst t = map fst (snd (run_pool files init_dict))" by (simp add: init_dict_keys)
  let ?P = "\<lambda>f. key \<in> set (counted_keys f) \<and> stored f key = Some val"
  from reachable_pool_inv[OF r]
  have prog: "\<And>w. w \<in> set ws \<Longrightarrow> returned w \<longrightarrow> pc w = length (counted_keys (img w))"
    and ent: "entry t key val
        = tally (length (filter (\<lambda>w. counted key w \<and> stored (img w) key = Some val) ws))"
    by (auto simp add: pool_inv_def)
  have "counted key w = (key \<in> set (counted_keys (img w)))" if "w \<in> set ws" for w
  proof -
    from fin that have "returned w" by (simp add: list_all_iff)
    with prog[OF that] have "pc w = length (counted_keys (img w))" by simp
    then have "take (pc w) STATISTIC_KEYS = counted_keys (img w)"
      unfolding counted_keys_def by (simp add: takeWhile_eq_take[symmetric])
    then show ?thesis by (simp add: counted_def)
  qed
  then have "filter (\<lambda>w. counted key w \<and> stored (img w) key = Some val) ws
      = filter (?P \<circ> img) ws"
    by (intro filter_cong) simp_all
  moreover have "length (filter (?P \<circ> img) ws) = length (filter ?P (map img ws))"
    by (simp add: filter_map)
  ultimately have "entry t key val = tally (length (filter ?P files))"
    using ent imgs by simp
  then show "entry t key val = entry (snd (run_pool files init_dict)) key val"
    by (simp add: run_pool_entry)
qed


text \<open>
  What the partial counting of C1 leads to: after that single incomplete file,
  \<^verbatim>\<open>cli\<close> finds an entry under \<^verbatim>\<open>DateTimeOriginal\<close>,
  enters the renderer, and the renderer raises \<^verbatim>\<open>ValueError\<close> at the first field without
  entries: the test of \<^verbatim>\<open>cli\<close> on \<^verbatim>\<open>DateTimeOriginal\<close> alone protects the renderer only if
  files are counted as a whole or not at all.
\<close>

lemma incomplete_file_breaks_rendering:
  "cli ref_lib
     [(Exif [(''DateTimeOriginal'', ''2023:05:01 12:30:00''), (''Model'', ''X100'')], InTime)]
   = ([\<lparr>title = ''DateTimeOriginal'', labels = [''2023-05-01''], bars = [1]\<rparr>,
       \<lparr>title = ''Model'', labels = [''X100''], bars = [1]\<rparr>],
      Some ValueError)"
  by code_simp

end
